theory Spec2Isabelle
  imports Main
begin

section \<open>Object references, errors and outcomes\<close>

text \<open>
  Modelled from the spec: \<open>getUniqueId()\<close> belongs to the base class \<open>gamecore.Base\<close>
  (base.js), which is not among the sources; the spec asks of every object put on a list
  "a stable per-instance unique identifier". An object reference is modelled by that
  identifier, so \<open>obj.getUniqueId()\<close> is the reference itself.
\<close>

type_synonym oid = nat

text \<open>
  The exceptions of the source. \<open>DuplicateAdd x l\<close> is the string
  \<open>'Attempting to add object: ' + x + ' twice to list ' + l\<close>, \<open>NoLast\<close> is
  \<open>"Hmm, no last in the list -- that shouldn't happen here"\<close>, \<open>NotInList\<close> is
  \<open>"Oops, trying to move an object that isn't in the list"\<close>, \<open>NoSuchPool t\<close> is
  \<open>"Oops, trying to release an object of type " + t + " but no pool exists"\<close>, and
  \<open>TypeError\<close> is what JavaScript raises on a property read through \<open>null\<close>.
\<close>

datatype error =
    DuplicateAdd oid nat
  | NoLast
  | NotInList
  | NoSuchPool string
  | TypeError

text \<open>
  A call either returns a value or throws. The state it leaves behind is returned next to
  the outcome in both cases, since a JavaScript exception does not undo the assignments
  made before it.
\<close>

datatype 'a outcome = Returned 'a | Thrown error

section \<open>gamecore.LinkedList (src/src/linkedlist.js)\<close>

record LinkedNode =
  obj :: oid
  nextLinked :: "oid option"
  prevLinked :: "oid option"
  free :: bool

text \<open>
  A list owns its nodes: a node is created by \<open>addNode\<close> only, which stores it in
  \<open>objToNodeMap\<close> under the identifier of its object, and no entry of that table is ever
  replaced or deleted. A node is therefore referred to by its key in \<open>objToNodeMap\<close>,
  and \<open>first\<close>, \<open>last\<close>, \<open>nextLinked\<close> and \<open>prevLinked\<close> hold such keys
  (\<open>None\<close> for \<open>null\<close>). The field \<open>last\<close> of the source is \<open>last_l\<close> here. In the
  source a reference that is not \<open>null\<close> always leads to a node; where the model reads
  through a key that has no node, the outcome is that of a read through \<open>null\<close>, and an
  assignment through it changes nothing.

  Modelled from the spec: \<open>gamecore.Hashtable\<close> is not among the sources. The spec has
  the list find its nodes by "identifier lookup" and the registry be "a mapping from type
  identifier" to pool with unique keys; both tables are maps, and \<open>get\<close> of a key that
  was never \<open>put\<close> is \<open>null\<close>.
\<close>

record LinkedList =
  uniqueId :: nat
  first :: "oid option"
  last_l :: "oid option"
  count :: int
  objToNodeMap :: "oid \<rightharpoonup> LinkedNode"

text \<open>Assignments to one field of the node behind a reference.\<close>

definition set_nextLinked :: "oid \<Rightarrow> oid option \<Rightarrow> (oid \<rightharpoonup> LinkedNode) \<Rightarrow> (oid \<rightharpoonup> LinkedNode)" where
  "set_nextLinked r v m = (case m r of None \<Rightarrow> m | Some n \<Rightarrow> m(r \<mapsto> n\<lparr>nextLinked := v\<rparr>))"

definition set_prevLinked :: "oid \<Rightarrow> oid option \<Rightarrow> (oid \<rightharpoonup> LinkedNode) \<Rightarrow> (oid \<rightharpoonup> LinkedNode)" where
  "set_prevLinked r v m = (case m r of None \<Rightarrow> m | Some n \<Rightarrow> m(r \<mapsto> n\<lparr>prevLinked := v\<rparr>))"

definition set_free :: "oid \<Rightarrow> bool \<Rightarrow> (oid \<rightharpoonup> LinkedNode) \<Rightarrow> (oid \<rightharpoonup> LinkedNode)" where
  "set_free r v m = (case m r of None \<Rightarrow> m | Some n \<Rightarrow> m(r \<mapsto> n\<lparr>free := v\<rparr>))"

text \<open>The constructor: an empty list with the identifier the base class gave it.\<close>

definition LinkedList_init :: "nat \<Rightarrow> LinkedList" where
  "LinkedList_init i =
     \<lparr>uniqueId = i, first = None, last_l = None, count = 0, objToNodeMap = Map.empty\<rparr>"

definition LinkedList_getNode :: "LinkedList \<Rightarrow> oid \<Rightarrow> LinkedNode option" where
  "LinkedList_getNode l x = objToNodeMap l x"

definition LinkedList_addNode :: "LinkedList \<Rightarrow> oid \<Rightarrow> LinkedList" where
  "LinkedList_addNode l x =
     l\<lparr>objToNodeMap := (objToNodeMap l)
         (x \<mapsto> \<lparr>obj = x, nextLinked = None, prevLinked = None, free = False\<rparr>)\<rparr>"

text \<open>
  The second half of \<open>add\<close> (from the comment "append this obj to the end of the list"):
  the node behind \<open>node\<close> becomes the tail.
\<close>

definition LinkedList_append :: "LinkedList \<Rightarrow> oid \<Rightarrow> unit outcome \<times> LinkedList" where
  "LinkedList_append l node =
     (case first l of
        None \<Rightarrow>
          (Returned (),
           l\<lparr>first := Some node, last_l := Some node,
             objToNodeMap := set_prevLinked node None (set_nextLinked node None (objToNodeMap l)),
             count := count l + 1\<rparr>)
      | Some _ \<Rightarrow>
          (case last_l l of
             None \<Rightarrow> (Thrown NoLast, l)
           | Some lst \<Rightarrow>
               (Returned (),
                l\<lparr>objToNodeMap :=
                    set_nextLinked node None
                      (set_prevLinked node (Some lst)
                        (set_nextLinked lst (Some node) (objToNodeMap l))),
                  last_l := Some node,
                  count := count l + 1\<rparr>)))"

definition LinkedList_add :: "LinkedList \<Rightarrow> oid \<Rightarrow> unit outcome \<times> LinkedList" where
  "LinkedList_add l x =
     (case LinkedList_getNode l x of
        None \<Rightarrow> LinkedList_append (LinkedList_addNode l x) x
      | Some node \<Rightarrow>
          if free node = False then (Thrown (DuplicateAdd x (uniqueId l)), l)
          else LinkedList_append
                 (l\<lparr>objToNodeMap := (objToNodeMap l)
                      (x \<mapsto> node\<lparr>obj := x, free := False, nextLinked := None, prevLinked := None\<rparr>)\<rparr>)
                 x)"

definition LinkedList_has :: "LinkedList \<Rightarrow> oid \<Rightarrow> bool" where
  "LinkedList_has l x =
     (case LinkedList_getNode l x of None \<Rightarrow> False | Some node \<Rightarrow> \<not> (free node = True))"

text \<open>
  \<open>moveUp\<close>: \<open>c\<close> is the node of \<open>x\<close>, \<open>b\<close> its predecessor, \<open>a\<close> the one before.
  \<open>b.prevLinked\<close> is read again after the first assignments, as the source does. The
  call to \<open>dump\<close> only prints.
\<close>

definition LinkedList_moveUp :: "LinkedList \<Rightarrow> oid \<Rightarrow> unit outcome \<times> LinkedList" where
  "LinkedList_moveUp l x =
     (case LinkedList_getNode l x of
        None \<Rightarrow> (Thrown NotInList, l)
      | Some c \<Rightarrow>
          (case prevLinked c of
             None \<Rightarrow> (Returned (), l)
           | Some b \<Rightarrow>
               (case objToNodeMap l b of
                  None \<Rightarrow> (Thrown TypeError, l)
                | Some bn \<Rightarrow>
                    let a = prevLinked bn;
                        la = (if last_l l = Some x then Some b else last_l l);
                        oldCNext = nextLinked c;
                        m1 = (case a of None \<Rightarrow> objToNodeMap l
                                      | Some ar \<Rightarrow> set_nextLinked ar (Some x) (objToNodeMap l));
                        m2 = set_nextLinked x (Some b) m1;
                        m3 = set_prevLinked x (case m2 b of None \<Rightarrow> None | Some bn' \<Rightarrow> prevLinked bn') m2;
                        m4 = set_nextLinked b oldCNext m3;
                        m5 = set_prevLinked b (Some x) m4;
                        fi = (if first l = Some b then Some x else first l)
                    in (Returned (), l\<lparr>first := fi, last_l := la, objToNodeMap := m5\<rparr>))))"

definition LinkedList_moveDown :: "LinkedList \<Rightarrow> oid \<Rightarrow> unit outcome \<times> LinkedList" where
  "LinkedList_moveDown l x =
     (case LinkedList_getNode l x of
        None \<Rightarrow> (Thrown NotInList, l)
      | Some b \<Rightarrow>
          (case nextLinked b of
             None \<Rightarrow> (Returned (), l)
           | Some c \<Rightarrow>
               (case objToNodeMap l c of
                  None \<Rightarrow> (Thrown TypeError, l)
                | Some cn \<Rightarrow>
                    (case LinkedList_moveUp l (obj cn) of
                       (Thrown e, l') \<Rightarrow> (Thrown e, l')
                     | (Returned u, l') \<Rightarrow>
                         (Returned (),
                          if last_l l' = Some c then l'\<lparr>last_l := Some x\<rparr> else l')))))"

text \<open>
  \<open>remove\<close>. The fields of \<open>node\<close> are those read at the start: the two assignments
  to the neighbours could only reach \<open>node\<close> itself by storing in a field the value it
  already has.
\<close>

definition LinkedList_remove :: "LinkedList \<Rightarrow> oid \<Rightarrow> bool \<times> LinkedList" where
  "LinkedList_remove l x =
     (case LinkedList_getNode l x of
        None \<Rightarrow> (False, l)
      | Some node \<Rightarrow>
          if free node = True then (False, l)
          else
            let m1 = (case prevLinked node of None \<Rightarrow> objToNodeMap l
                        | Some p \<Rightarrow> set_nextLinked p (nextLinked node) (objToNodeMap l));
                m2 = (case nextLinked node of None \<Rightarrow> m1
                        | Some nx \<Rightarrow> set_prevLinked nx (prevLinked node) m1);
                fi = (if prevLinked node = None then nextLinked node else first l);
                la = (if nextLinked node = None then prevLinked node else last_l l);
                m3 = set_nextLinked x None (set_prevLinked x None (set_free x True m2))
            in (True, l\<lparr>first := fi, last_l := la, objToNodeMap := m3, count := count l - 1\<rparr>))"

section \<open>gamecore.Pool and gamecore.Pooled (src/pooled.js)\<close>

record Pool =
  freeList :: LinkedList
  usedList :: LinkedList
  initialSize :: int
  classType :: string
  returnObj :: "oid option"

text \<open>
  The state outside one pool: the statics of \<open>gamecore.Pool\<close> (\<open>INITIAL_POOL_SIZE\<close>,
  the table \<open>pools\<close> keyed by \<open>classType.fullName\<close>, the counter \<open>totalPooled\<close>), and the
  objects: the next identifier the base class hands out, and per object its
  \<open>Class.fullName\<close> and the field \<open>destroyed\<close> of \<open>gamecore.Pooled\<close>.
\<close>

record world =
  INITIAL_POOL_SIZE :: int
  pools :: "string \<rightharpoonup> Pool"
  totalPooled :: int
  nextId :: nat
  Class_fullName :: "oid \<Rightarrow> string"
  destroyed :: "oid \<Rightarrow> bool"

text \<open>
  Modelled from the spec: the base class \<open>gamecore.Base\<close> (base.js) is not among the
  sources; the spec asks of a pooled type that it is "zero-argument constructible" with
  "a stable per-instance unique identifier". \<open>new_object t w\<close> is \<open>new t()\<close>: the
  object gets the next unused identifier, and \<open>destroyed\<close> has the prototype's value
  \<open>false\<close>.
\<close>

definition new_object :: "string \<Rightarrow> world \<Rightarrow> oid \<times> world" where
  "new_object t w =
     (nextId w,
      w\<lparr>nextId := nextId w + 1,
        Class_fullName := (Class_fullName w)(nextId w := t),
        destroyed := (destroyed w)(nextId w := False)\<rparr>)"

text \<open>\<open>new gamecore.LinkedList()\<close>: an empty list with an identifier of its own.\<close>

definition new_LinkedList :: "world \<Rightarrow> LinkedList \<times> world" where
  "new_LinkedList w = (LinkedList_init (nextId w), w\<lparr>nextId := nextId w + 1\<rparr>)"

definition Pool_size :: "Pool \<Rightarrow> int" where
  "Pool_size p = count (freeList p) + count (usedList p)"

text \<open>The loop of \<open>expand\<close>, with the number of rounds still to run.\<close>

fun expand_loop :: "nat \<Rightarrow> Pool \<Rightarrow> world \<Rightarrow> unit outcome \<times> Pool \<times> world" where
  "expand_loop 0 p w = (Returned (), p, w)"
| "expand_loop (Suc k) p w =
     (let (x, w1) = new_object (classType p) w in
      case LinkedList_add (freeList p) x of
        (Thrown e, fl) \<Rightarrow> (Thrown e, p\<lparr>freeList := fl\<rparr>, w1)
      | (Returned u, fl) \<Rightarrow> expand_loop k (p\<lparr>freeList := fl\<rparr>) w1)"

definition Pool_expand :: "Pool \<Rightarrow> world \<Rightarrow> int \<Rightarrow> unit outcome \<times> Pool \<times> world" where
  "Pool_expand p w howMany =
     expand_loop (nat howMany) p (w\<lparr>totalPooled := totalPooled w + howMany\<rparr>)"

text \<open>
  \<open>Math.round(n / 5)\<close> for an integer \<open>n\<close>: \<open>Math.round\<close> rounds to the nearest
  integer, a half upwards, that is \<open>floor(x + 0.5)\<close>, and \<open>n / 5 + 1 / 2\<close> is
  \<open>(2 n + 5) / 10\<close>. \<open>size()\<close> is a sum of two counters, so \<open>n\<close> is an integer.
\<close>

definition Math_round_fifth :: "int \<Rightarrow> int" where
  "Math_round_fifth n = (2 * n + 5) div 10"

definition Pool_init :: "string \<Rightarrow> int \<Rightarrow> world \<Rightarrow> unit outcome \<times> Pool \<times> world" where
  "Pool_init t initial w =
     (let (fl, w1) = new_LinkedList w;
          (ul, w2) = new_LinkedList w1
      in Pool_expand
           \<lparr>freeList = fl, usedList = ul, initialSize = initial, classType = t, returnObj = None\<rparr>
           w2 initial)"

text \<open>
  \<open>acquire\<close> after its check of the free list: the four statements from
  \<open>this.returnObj = this.freeList.first.obj\<close> to the \<open>return\<close>.
\<close>

definition Pool_acquire_take :: "Pool \<Rightarrow> world \<Rightarrow> oid outcome \<times> Pool \<times> world" where
  "Pool_acquire_take p w =
     (case first (freeList p) of
        None \<Rightarrow> (Thrown TypeError, p, w)
      | Some f \<Rightarrow>
          (case objToNodeMap (freeList p) f of
             None \<Rightarrow> (Thrown TypeError, p, w)
           | Some fnode \<Rightarrow>
               let ro = obj fnode;
                   (b, fl) = LinkedList_remove (freeList p) ro;
                   p2 = p\<lparr>returnObj := Some ro, freeList := fl\<rparr>;
                   w2 = w\<lparr>destroyed := (destroyed w)(ro := False)\<rparr>
               in (case LinkedList_add (usedList p2) ro of
                     (Thrown e, ul) \<Rightarrow> (Thrown e, p2\<lparr>usedList := ul\<rparr>, w2)
                   | (Returned u, ul) \<Rightarrow> (Returned ro, p2\<lparr>usedList := ul\<rparr>, w2))))"

definition Pool_acquire :: "Pool \<Rightarrow> world \<Rightarrow> oid outcome \<times> Pool \<times> world" where
  "Pool_acquire p w =
     (if first (freeList p) = None
      then (case Pool_expand p w (Math_round_fifth (Pool_size p) + 1) of
              (Thrown e, p1, w1) \<Rightarrow> (Thrown e, p1, w1)
            | (Returned u, p1, w1) \<Rightarrow> Pool_acquire_take p1 w1)
      else Pool_acquire_take p w)"

definition Pool_release :: "Pool \<Rightarrow> world \<Rightarrow> oid \<Rightarrow> unit outcome \<times> Pool \<times> world" where
  "Pool_release p w x =
     (case LinkedList_add (freeList p) x of
        (Thrown e, fl) \<Rightarrow> (Thrown e, p\<lparr>freeList := fl\<rparr>, w)
      | (Returned u, fl) \<Rightarrow>
          let (b, ul) = LinkedList_remove (usedList p) x
          in (Returned (), p\<lparr>freeList := fl, usedList := ul\<rparr>,
              w\<lparr>destroyed := (destroyed w)(x := True)\<rparr>))"

text \<open>
  The static side. The pool found or made for the type is the object stored in
  \<open>pools\<close>, so what \<open>pool.acquire()\<close> and \<open>pool.release(obj)\<close> do to it is written
  back under its key.
\<close>

definition Pool_static_acquire :: "world \<Rightarrow> string \<Rightarrow> oid outcome \<times> world" where
  "Pool_static_acquire w t =
     (case (case pools w t of
              None \<Rightarrow>
                (case Pool_init t (INITIAL_POOL_SIZE w) w of
                   (Thrown e, p, w1) \<Rightarrow> (Thrown e, p, w1)
                 | (Returned u, p, w1) \<Rightarrow> (Returned (), p, w1\<lparr>pools := (pools w1)(t \<mapsto> p)\<rparr>))
            | Some p \<Rightarrow> (Returned (), p, w)) of
        (Thrown e, p, w1) \<Rightarrow> (Thrown e, w1)
      | (Returned u, p, w1) \<Rightarrow>
          (case Pool_acquire p w1 of
             (r, p', w2) \<Rightarrow> (r, w2\<lparr>pools := (pools w2)(t \<mapsto> p')\<rparr>)))"

definition Pool_static_release :: "world \<Rightarrow> oid \<Rightarrow> unit outcome \<times> world" where
  "Pool_static_release w x =
     (case pools w (Class_fullName w x) of
        None \<Rightarrow> (Thrown (NoSuchPool (Class_fullName w x)), w)
      | Some p \<Rightarrow>
          (case Pool_release p w x of
             (r, p', w1) \<Rightarrow> (r, w1\<lparr>pools := (pools w1)(Class_fullName w x \<mapsto> p')\<rparr>)))"

section \<open>What a well-formed list is\<close>

text \<open>
  \<open>head_or d xs\<close> is the first element of \<open>xs\<close> and \<open>last_or d xs\<close> the last one,
  as a reference; \<open>d\<close> is the answer for the empty list.
\<close>

fun head_or :: "oid option \<Rightarrow> oid list \<Rightarrow> oid option" where
  "head_or d [] = d"
| "head_or d (x # xs) = Some x"

fun last_or :: "oid option \<Rightarrow> oid list \<Rightarrow> oid option" where
  "last_or d [] = d"
| "last_or d (x # xs) = last_or (Some x) xs"

text \<open>
  \<open>chain m pv xs nx\<close>: in the node table \<open>m\<close> the objects \<open>xs\<close> are linked in this
  order, forwards and backwards: each has a node that is in use and carries it, whose
  \<open>prevLinked\<close> is the element before (\<open>pv\<close> for the first) and whose \<open>nextLinked\<close> is
  the element after (\<open>nx\<close> for the last).
\<close>

fun chain :: "(oid \<rightharpoonup> LinkedNode) \<Rightarrow> oid option \<Rightarrow> oid list \<Rightarrow> oid option \<Rightarrow> bool" where
  "chain m pv [] nx = True"
| "chain m pv (x # xs) nx =
     (case m x of
        None \<Rightarrow> False
      | Some n \<Rightarrow>
          obj n = x \<and> free n = False \<and> prevLinked n = pv \<and>
          nextLinked n = head_or nx xs \<and> chain m (Some x) xs nx)"

text \<open>A node table's view of membership: the key has a node and the node is in use.\<close>

definition live :: "(oid \<rightharpoonup> LinkedNode) \<Rightarrow> oid \<Rightarrow> bool" where
  "live m k = (case m k of None \<Rightarrow> False | Some n \<Rightarrow> free n = False)"

text \<open>
  \<open>is_dll l xs\<close>: the list \<open>l\<close> is a well-formed doubly linked list holding exactly
  \<open>xs\<close>, in this order: no object twice, the nodes chained both ways from \<open>null\<close> to
  \<open>null\<close>, \<open>first\<close> and \<open>last\<close> at the two ends, \<open>count\<close> the length, and \<open>has\<close>
  true of the elements of \<open>xs\<close> and of nothing else. On an empty list \<open>last\<close> is left
  open: \<open>add\<close> does not read it while \<open>first\<close> is \<open>null\<close>, and \<open>clear()\<close> resets
  \<open>first\<close> and \<open>count\<close> only.
\<close>

definition is_dll :: "LinkedList \<Rightarrow> oid list \<Rightarrow> bool" where
  "is_dll l xs =
     (distinct xs \<and> chain (objToNodeMap l) None xs None \<and>
      first l = head_or None xs \<and> (xs = [] \<or> last_l l = last_or None xs) \<and>
      count l = int (length xs) \<and>
      (\<forall>k. LinkedList_has l k = (k \<in> set xs)))"

text \<open>The node \<open>addNode\<close> makes, which is also what \<open>add\<close> resets a reused node to.\<close>

definition fresh_node :: "oid \<Rightarrow> LinkedNode" where
  "fresh_node x = \<lparr>obj = x, nextLinked = None, prevLinked = None, free = False\<rparr>"

text \<open>The objects met from \<open>last\<close> along \<open>prevLinked\<close>, at most \<open>n\<close> of them.\<close>

fun backward :: "(oid \<rightharpoonup> LinkedNode) \<Rightarrow> nat \<Rightarrow> oid option \<Rightarrow> oid list" where
  "backward m 0 r = []"
| "backward m (Suc n) None = []"
| "backward m (Suc n) (Some r) =
     (case m r of None \<Rightarrow> [] | Some nd \<Rightarrow> obj nd # backward m n (prevLinked nd))"

text \<open>The objects met from \<open>first\<close> along \<open>nextLinked\<close>, at most \<open>n\<close> of them.\<close>

fun forward :: "(oid \<rightharpoonup> LinkedNode) \<Rightarrow> nat \<Rightarrow> oid option \<Rightarrow> oid list" where
  "forward m 0 r = []"
| "forward m (Suc n) None = []"
| "forward m (Suc n) (Some r) =
     (case m r of None \<Rightarrow> [] | Some nd \<Rightarrow> obj nd # forward m n (nextLinked nd))"

section \<open>Well-formed pools and runs of the registry\<close>

text \<open>
  The statics as the source initialises them, before any object exists:
  \<open>INITIAL_POOL_SIZE: 1\<close>, an empty table \<open>pools\<close>, \<open>totalPooled: 0\<close>.
\<close>

definition world0 :: world where
  "world0 =
     \<lparr>INITIAL_POOL_SIZE = 1, pools = Map.empty, totalPooled = 0, nextId = 0,
      Class_fullName = (\<lambda>x. []), destroyed = (\<lambda>x. False)\<rparr>"

text \<open>The state after \<open>k\<close> objects of type \<open>t\<close> were constructed one after the other.\<close>

fun new_objects :: "nat \<Rightarrow> string \<Rightarrow> world \<Rightarrow> world" where
  "new_objects 0 t w = w"
| "new_objects (Suc k) t w = new_objects k t (snd (new_object t w))"

text \<open>
  \<open>pool_inv p w fs us\<close>: the free list of \<open>p\<close> is the well-formed list \<open>fs\<close>, the used
  list is the well-formed list \<open>us\<close>, no object is on both, and every object on them
  exists (its identifier was handed out).
\<close>

definition pool_inv :: "Pool \<Rightarrow> world \<Rightarrow> oid list \<Rightarrow> oid list \<Rightarrow> bool" where
  "pool_inv p w fs us =
     (is_dll (freeList p) fs \<and> is_dll (usedList p) us \<and>
      list_all (\<lambda>x. x \<notin> set us) fs \<and> list_all (\<lambda>x. x < nextId w) (fs @ us))"

definition wf_list :: "LinkedList \<Rightarrow> bool" where
  "wf_list l = (\<exists>xs. is_dll l xs)"

definition wf_pool :: "Pool \<Rightarrow> bool" where
  "wf_pool p = (wf_list (freeList p) \<and> wf_list (usedList p))"

text \<open>
  \<open>wf_world w\<close>: the initial pool size is a number of objects, and both lists of every
  registered pool are well formed.
\<close>

definition wf_world :: "world \<Rightarrow> bool" where
  "wf_world w = (0 \<le> INITIAL_POOL_SIZE w \<and> (\<forall>t p. pools w t = Some p \<longrightarrow> wf_pool p))"

text \<open>
  Two values of a pool are the same pool object at two moments: the lists, the type
  and the initial size are assigned once, in \<open>init\<close>, and the lists keep their identifiers.
\<close>

definition same_pool :: "Pool \<Rightarrow> Pool \<Rightarrow> bool" where
  "same_pool p p' =
     (uniqueId (freeList p') = uniqueId (freeList p) \<and>
      uniqueId (usedList p') = uniqueId (usedList p) \<and>
      classType p' = classType p \<and> initialSize p' = initialSize p)"

text \<open>
  \<open>registry_extends w w'\<close>: every pool registered in \<open>w\<close> is in \<open>w'\<close> still the pool
  registered for its type.
\<close>

definition registry_extends :: "world \<Rightarrow> world \<Rightarrow> bool" where
  "registry_extends w w' =
     (\<forall>t p. pools w t = Some p \<longrightarrow> (\<exists>p'. pools w' t = Some p' \<and> same_pool p p'))"

text \<open>
  What a program can do with the registry: \<open>gamecore.Pool.acquire(T)\<close>,
  \<open>gamecore.Pool.release(obj)\<close>, \<open>expand(n)\<close> on the pool registered for a type (\<open>n\<close>
  new objects), and \<open>new T()\<close> outside any pool. A call that throws leaves the state
  it reached, and the program goes on from there.
\<close>

datatype op = Acquire string | Release oid | Expand string nat | Construct string

fun step :: "world \<Rightarrow> op \<Rightarrow> world" where
  "step w (Acquire t) = snd (Pool_static_acquire w t)"
| "step w (Release x) = snd (Pool_static_release w x)"
| "step w (Expand t n) =
     (case pools w t of
        None \<Rightarrow> w
      | Some p \<Rightarrow>
          (case Pool_expand p w (int n) of
             (r, p', w') \<Rightarrow> w'\<lparr>pools := (pools w')(t \<mapsto> p')\<rparr>))"
| "step w (Construct t) = snd (new_object t w)"

definition run :: "world \<Rightarrow> op list \<Rightarrow> world" where
  "run w ops = foldl step w ops"

text \<open>
  The scenario of the spec: a fresh pool of type \<open>Point\<close> with initial size 1; \<open>acquire\<close>
  hands out object A; a second \<open>acquire\<close> finds the free list empty, expands and hands
  out object B. Each constant is the pool and the state after the step.
\<close>

definition scenario_fresh :: "Pool \<times> world" where
  "scenario_fresh = snd (Pool_init ''Point'' 1 world0)"

definition scenario_A :: "Pool \<times> world" where
  "scenario_A = snd (Pool_acquire (fst scenario_fresh) (snd scenario_fresh))"

definition scenario_B :: "Pool \<times> world" where
  "scenario_B = snd (Pool_acquire (fst scenario_A) (snd scenario_A))"

text \<open>After A (object 2) was released once, and after B (object 3) was released.\<close>

definition scenario_A_released :: "Pool \<times> world" where
  "scenario_A_released = snd (Pool_release (fst scenario_A) (snd scenario_A) 2)"

definition scenario_B_released :: "Pool \<times> world" where
  "scenario_B_released = snd (Pool_release (fst scenario_B) (snd scenario_B) 3)"

text \<open>
  A second scenario: a fresh pool of type \<open>Point\<close> with initial size 3 (objects 2, 3
  and 4), and the pool after each of three calls of \<open>acquire\<close>, which leave all three
  objects on loan and the free list empty.
\<close>

definition scenario3_fresh :: "Pool \<times> world" where
  "scenario3_fresh = snd (Pool_init ''Point'' 3 world0)"

definition scenario3_one :: "Pool \<times> world" where
  "scenario3_one = snd (Pool_acquire (fst scenario3_fresh) (snd scenario3_fresh))"

definition scenario3_two :: "Pool \<times> world" where
  "scenario3_two = snd (Pool_acquire (fst scenario3_one) (snd scenario3_one))"

definition scenario3_all :: "Pool \<times> world" where
  "scenario3_all = snd (Pool_acquire (fst scenario3_two) (snd scenario3_two))"

text \<open>A list with identifier 0 to which the objects 1, 2 and 3 were added in this order.\<close>

definition list123 :: LinkedList where
  "list123 =
     snd (LinkedList_add (snd (LinkedList_add (snd (LinkedList_add (LinkedList_init 0) 1)) 2)) 3)"

section \<open>Facts about the lists, the pool and the registry\<close>

lemma set_nextLinked_apply:
  "set_nextLinked r v m k = (if k = r then map_option (\<lambda>n. n\<lparr>nextLinked := v\<rparr>) (m r) else m k)"
  by (simp add: set_nextLinked_def split: option.split)

lemma set_prevLinked_apply:
  "set_prevLinked r v m k = (if k = r then map_option (\<lambda>n. n\<lparr>prevLinked := v\<rparr>) (m r) else m k)"
  by (simp add: set_prevLinked_def split: option.split)

lemma set_free_apply:
  "set_free r v m k = (if k = r then map_option (\<lambda>n. n\<lparr>free := v\<rparr>) (m r) else m k)"
  by (simp add: set_free_def split: option.split)

lemma head_or_append: "head_or d (xs @ ys) = head_or (head_or d ys) xs"
  by (cases xs) simp_all

lemma last_or_append: "last_or d (xs @ ys) = last_or (last_or d xs) ys"
  by (induction xs arbitrary: d) simp_all

lemma last_or_snoc: "last_or d (xs @ [x]) = Some x"
  by (simp add: last_or_append)

lemma chain_frame:
  "(\<And>x. x \<in> set xs \<Longrightarrow> m' x = m x) \<Longrightarrow> chain m' pv xs nx = chain m pv xs nx"
  by (induction xs arbitrary: pv) (simp_all split: option.split)

lemma chain_append:
  "chain m pv (xs @ ys) nx = (chain m pv xs (head_or nx ys) \<and> chain m (last_or pv xs) ys nx)"
proof (induction xs arbitrary: pv)
  case Nil
  show ?case by simp
next
  case (Cons a xs)
  show ?case
  proof (cases "m a")
    case None
    then show ?thesis by simp
  next
    case (Some n)
    then show ?thesis by (simp add: Cons.IH head_or_append conj_ac)
  qed
qed

lemma chain_has:
  "chain m pv xs nx \<Longrightarrow> x \<in> set xs \<Longrightarrow> \<exists>n. m x = Some n \<and> free n = False \<and> obj n = x"
  by (induction xs arbitrary: pv) (auto split: option.splits)

lemma has_live: "LinkedList_has l k = live (objToNodeMap l) k"
  by (simp add: LinkedList_has_def LinkedList_getNode_def live_def split: option.split)

lemma live_set_nextLinked: "live (set_nextLinked r v m) = live m"
  by (rule ext) (simp add: live_def set_nextLinked_apply split: option.split)

lemma live_set_prevLinked: "live (set_prevLinked r v m) = live m"
  by (rule ext) (simp add: live_def set_prevLinked_apply split: option.split)

lemma live_set_free: "live (set_free r True m) = (live m)(r := False)"
  by (rule ext) (simp add: live_def set_free_apply split: option.split)

lemma live_upd: "live (m(x \<mapsto> n)) = (live m)(x := (free n = False))"
  by (rule ext) (simp add: live_def)

lemma last_or_nonempty: "xs \<noteq> [] \<Longrightarrow> last_or d xs = Some (last xs)"
  by (induction xs arbitrary: d) auto

lemma last_or_None_iff: "(last_or None xs = None) = (xs = [])"
  by (cases "xs = []") (simp_all add: last_or_nonempty)

lemma head_or_None_iff: "(head_or None xs = None) = (xs = [])"
  by (cases xs) simp_all

lemma last_or_in: "last_or None xs = Some y \<Longrightarrow> y \<in> set xs"
  by (cases "xs = []") (auto simp: last_or_nonempty)

lemma head_or_in: "head_or None xs = Some y \<Longrightarrow> y \<in> set xs"
  by (cases xs) auto

lemma chain_relink_end:
  "chain m pv ys nx \<Longrightarrow> distinct ys \<Longrightarrow>
   chain (case last_or None ys of None \<Rightarrow> m | Some p \<Rightarrow> set_nextLinked p nx' m) pv ys nx'"
proof (induction ys arbitrary: pv)
  case Nil
  show ?case by simp
next
  case (Cons a ys)
  from Cons.prems obtain n where n: "m a = Some n" "obj n = a" "free n = False"
    "prevLinked n = pv" "nextLinked n = head_or nx ys" "chain m (Some a) ys nx"
    by (auto split: option.splits)
  show ?case
  proof (cases ys)
    case Nil
    with n show ?thesis by (simp add: set_nextLinked_apply)
  next
    case (Cons b zs)
    then have ne: "ys \<noteq> []" by simp
    have lo: "last_or None (a # ys) = Some (last ys)" "last_or None ys = Some (last ys)"
      using ne by (simp_all add: last_or_nonempty)
    have ho: "head_or nx' ys = head_or nx ys" using Cons by simp
    have la: "last ys \<noteq> a" using Cons.prems(2) ne by auto
    have ih: "chain (set_nextLinked (last ys) nx' m) (Some a) ys nx'"
      using Cons.IH [OF n(6)] Cons.prems(2) lo by simp
    have ma: "set_nextLinked (last ys) nx' m a = Some n"
      using la n(1) by (simp add: set_nextLinked_apply)
    have "chain (set_nextLinked (last ys) nx' m) pv (a # ys) nx'"
      using ih ma n(2-5) ho by simp
    then show ?thesis by (simp only: lo option.case)
  qed
qed

lemma chain_relink_start:
  "chain m pv zs nx \<Longrightarrow> distinct zs \<Longrightarrow>
   chain (case head_or None zs of None \<Rightarrow> m | Some z \<Rightarrow> set_prevLinked z pv' m) pv' zs nx"
proof (cases zs)
  case Nil
  then show ?thesis by simp
next
  case (Cons z zs')
  assume c: "chain m pv zs nx" and d: "distinct zs"
  from c Cons obtain n where n: "m z = Some n" "obj n = z" "free n = False"
    "nextLinked n = head_or nx zs'" "chain m (Some z) zs' nx"
    by (auto split: option.splits)
  have "chain (set_prevLinked z pv' m) (Some z) zs' nx = chain m (Some z) zs' nx"
    using d Cons by (intro chain_frame) (auto simp: set_prevLinked_apply)
  with n Cons show ?thesis by (simp add: set_prevLinked_apply)
qed

lemma dom_set_nextLinked: "dom (set_nextLinked r v m) = dom m"
  by (auto simp: set_nextLinked_apply dom_def split: if_splits)

lemma dom_set_prevLinked: "dom (set_prevLinked r v m) = dom m"
  by (auto simp: set_prevLinked_apply dom_def split: if_splits)

lemma dom_set_free: "dom (set_free r v m) = dom m"
  by (auto simp: set_free_apply dom_def split: if_splits)

lemma LinkedList_append_dll:
  assumes d: "distinct xs" and nin: "x \<notin> set xs"
    and ch: "chain (objToNodeMap l0) None xs None"
    and nx: "objToNodeMap l0 x = Some (fresh_node x)"
    and fi: "first l0 = head_or None xs" and la: "xs = [] \<or> last_l l0 = last_or None xs"
    and co: "count l0 = int (length xs)"
    and li: "\<And>k. live (objToNodeMap l0) k = (k \<in> set xs \<or> k = x)"
  shows "fst (LinkedList_append l0 x) = Returned () \<and>
         is_dll (snd (LinkedList_append l0 x)) (xs @ [x]) \<and>
         uniqueId (snd (LinkedList_append l0 x)) = uniqueId l0 \<and>
         dom (objToNodeMap (snd (LinkedList_append l0 x))) = dom (objToNodeMap l0)"
proof (cases "xs = []")
  case True
  let ?m = "set_prevLinked x None (set_nextLinked x None (objToNodeMap l0))"
  have mx: "?m x = Some (fresh_node x)"
    using nx by (simp add: set_prevLinked_apply set_nextLinked_apply fresh_node_def)
  have lv: "live ?m = live (objToNodeMap l0)"
    by (simp add: live_set_prevLinked live_set_nextLinked)
  have ap: "LinkedList_append l0 x =
      (Returned (), l0\<lparr>first := Some x, last_l := Some x, objToNodeMap := ?m, count := count l0 + 1\<rparr>)"
    using fi True by (simp add: LinkedList_append_def)
  have "chain ?m None [x] None" using mx by (simp add: fresh_node_def)
  then have "is_dll (l0\<lparr>first := Some x, last_l := Some x, objToNodeMap := ?m, count := count l0 + 1\<rparr>) (xs @ [x])"
    using True co li by (simp add: is_dll_def has_live lv)
  then show ?thesis
    by (simp add: ap dom_set_prevLinked dom_set_nextLinked)
next
  case False
  then obtain lst where lst: "last_or None xs = Some lst" "lst = last xs"
    by (simp add: last_or_nonempty)
  from False obtain h where h: "head_or None xs = Some h" by (cases xs) auto
  have lin: "lst \<in> set xs" using lst False by simp
  then have lx: "lst \<noteq> x" using nin by auto
  let ?m1 = "set_nextLinked lst (Some x) (objToNodeMap l0)"
  let ?m2 = "set_prevLinked x (Some lst) ?m1"
  let ?m3 = "set_nextLinked x None ?m2"
  let ?l1 = "l0\<lparr>objToNodeMap := ?m3, last_l := Some x, count := count l0 + 1\<rparr>"
  have ap: "LinkedList_append l0 x = (Returned (), ?l1)"
    using fi la lst h False by (simp add: LinkedList_append_def)
  have c1: "chain ?m1 None xs (Some x)"
    using chain_relink_end [OF ch d, of "Some x"] lst by simp
  have "chain ?m3 None xs (Some x) = chain ?m1 None xs (Some x)"
    using nin by (intro chain_frame) (auto simp: set_prevLinked_apply set_nextLinked_apply)
  with c1 have c3: "chain ?m3 None xs (Some x)" by simp
  have m3x: "?m3 x = Some \<lparr>obj = x, nextLinked = None, prevLinked = Some lst, free = False\<rparr>"
    using nx lx by (simp add: set_prevLinked_apply set_nextLinked_apply fresh_node_def)
  have c4: "chain ?m3 (last_or None xs) [x] None"
    using m3x lst by simp
  have cc: "chain ?m3 None (xs @ [x]) None"
    using c3 c4 by (simp add: chain_append)
  have lv: "live ?m3 = live (objToNodeMap l0)"
    by (simp add: live_set_prevLinked live_set_nextLinked)
  have hh: "head_or (Some x) xs = head_or None xs"
    using False by (cases xs) simp_all
  have "is_dll ?l1 (xs @ [x])"
    using cc d nin fi co li hh
    by (auto simp: is_dll_def has_live lv head_or_append last_or_snoc)
  then show ?thesis
    by (simp add: ap dom_set_prevLinked dom_set_nextLinked)
qed

lemma LinkedList_add_duplicate:
  "LinkedList_has l x \<Longrightarrow> LinkedList_add l x = (Thrown (DuplicateAdd x (uniqueId l)), l)"
  by (auto simp: LinkedList_has_def LinkedList_add_def split: option.splits)

lemma reinit_node:
  "n\<lparr>obj := x, free := False, nextLinked := None, prevLinked := None\<rparr> = fresh_node x"
  by (cases n) (simp add: fresh_node_def)

lemma LinkedList_add_not_has:
  "\<not> LinkedList_has l x \<Longrightarrow>
   LinkedList_add l x = LinkedList_append (l\<lparr>objToNodeMap := (objToNodeMap l)(x \<mapsto> fresh_node x)\<rparr>) x"
  by (auto simp: LinkedList_has_def LinkedList_add_def LinkedList_addNode_def LinkedList_getNode_def
      reinit_node fresh_node_def [symmetric] split: option.splits)

lemma LinkedList_add_dll:
  assumes dll: "is_dll l xs" and nin: "x \<notin> set xs"
  shows "fst (LinkedList_add l x) = Returned () \<and>
         is_dll (snd (LinkedList_add l x)) (xs @ [x]) \<and>
         uniqueId (snd (LinkedList_add l x)) = uniqueId l \<and>
         dom (objToNodeMap (snd (LinkedList_add l x))) = insert x (dom (objToNodeMap l))"
proof -
  let ?l0 = "l\<lparr>objToNodeMap := (objToNodeMap l)(x \<mapsto> fresh_node x)\<rparr>"
  have nh: "\<not> LinkedList_has l x" using dll nin by (simp add: is_dll_def)
  have eq: "LinkedList_add l x = LinkedList_append ?l0 x"
    by (rule LinkedList_add_not_has [OF nh])
  have d: "distinct xs" using dll by (simp add: is_dll_def)
  have "chain (objToNodeMap ?l0) None xs None = chain (objToNodeMap l) None xs None"
    using nin by (intro chain_frame) auto
  then have ch: "chain (objToNodeMap ?l0) None xs None" using dll by (simp add: is_dll_def)
  have li: "\<And>k. live (objToNodeMap ?l0) k = (k \<in> set xs \<or> k = x)"
    using dll by (auto simp: is_dll_def has_live live_upd fresh_node_def)
  have "fst (LinkedList_append ?l0 x) = Returned () \<and>
         is_dll (snd (LinkedList_append ?l0 x)) (xs @ [x]) \<and>
         uniqueId (snd (LinkedList_append ?l0 x)) = uniqueId ?l0 \<and>
         dom (objToNodeMap (snd (LinkedList_append ?l0 x))) = dom (objToNodeMap ?l0)"
    using dll by (intro LinkedList_append_dll d nin ch li) (simp_all add: is_dll_def)
  then show ?thesis by (simp add: eq)
qed

lemma LinkedList_remove_absent:
  "\<not> LinkedList_has l x \<Longrightarrow> LinkedList_remove l x = (False, l)"
  by (auto simp: LinkedList_has_def LinkedList_remove_def split: option.splits)

lemma last_or_change: "zs \<noteq> [] \<Longrightarrow> last_or d zs = last_or d' zs"
  by (simp add: last_or_nonempty)

lemma head_or_change: "zs \<noteq> [] \<Longrightarrow> head_or d zs = head_or d' zs"
  by (cases zs) simp_all

lemma LinkedList_remove_split:
  assumes dll: "is_dll l (ys @ x # zs)"
  shows "fst (LinkedList_remove l x) = True \<and>
         is_dll (snd (LinkedList_remove l x)) (ys @ zs) \<and>
         uniqueId (snd (LinkedList_remove l x)) = uniqueId l \<and>
         dom (objToNodeMap (snd (LinkedList_remove l x))) = dom (objToNodeMap l)"
proof -
  let ?m = "objToNodeMap l"
  let ?p = "last_or None ys" and ?n = "head_or None zs"
  have d: "distinct ys" "distinct zs" "x \<notin> set ys" "x \<notin> set zs" "set ys \<inter> set zs = {}"
    using dll by (auto simp: is_dll_def)
  have ch: "chain ?m None ys (Some x)" "chain ?m ?p (x # zs) None"
    using dll by (simp_all add: is_dll_def chain_append)
  from ch(2) obtain node where node: "?m x = Some node" "free node = False"
      "prevLinked node = ?p" "nextLinked node = ?n" and chz: "chain ?m (Some x) zs None"
    by (auto split: option.splits)
  let ?m1 = "case ?p of None \<Rightarrow> ?m | Some p \<Rightarrow> set_nextLinked p ?n ?m"
  let ?m2 = "case ?n of None \<Rightarrow> ?m1 | Some nx \<Rightarrow> set_prevLinked nx ?p ?m1"
  let ?m3 = "set_nextLinked x None (set_prevLinked x None (set_free x True ?m2))"
  let ?fi = "if ?p = None then ?n else first l"
  let ?la = "if ?n = None then ?p else last_l l"
  let ?l1 = "l\<lparr>first := ?fi, last_l := ?la, objToNodeMap := ?m3, count := count l - 1\<rparr>"
  have rm: "LinkedList_remove l x = (True, ?l1)"
    using node by (simp add: LinkedList_remove_def LinkedList_getNode_def Let_def cong: option.case_cong)
  have m1_ys: "chain ?m1 None ys ?n"
    by (rule chain_relink_end [OF ch(1) d(1)])
  have m1_other: "\<And>k. k \<notin> set ys \<Longrightarrow> ?m1 k = ?m k"
    by (auto simp: set_nextLinked_apply dest: last_or_in split: option.splits)
  have m2_other: "\<And>k. k \<notin> set zs \<Longrightarrow> ?m2 k = ?m1 k"
    by (auto simp: set_prevLinked_apply dest: head_or_in split: option.splits)
  have m3_other: "\<And>k. k \<noteq> x \<Longrightarrow> ?m3 k = ?m2 k"
    by (simp add: set_nextLinked_apply set_prevLinked_apply set_free_apply)
  have "chain ?m1 (Some x) zs None = chain ?m (Some x) zs None"
    using d(5) by (intro chain_frame m1_other) auto
  then have "chain ?m1 (Some x) zs None" using chz by simp
  then have m2_zs: "chain ?m2 ?p zs None"
    by (rule chain_relink_start [OF _ d(2)])
  have "chain ?m2 None ys ?n = chain ?m1 None ys ?n"
    using d(5) by (intro chain_frame m2_other) auto
  then have m2_ys: "chain ?m2 None ys ?n" using m1_ys by simp
  have "chain ?m3 None ys ?n = chain ?m2 None ys ?n"
    using d(3) by (intro chain_frame m3_other) auto
  moreover have "chain ?m3 ?p zs None = chain ?m2 ?p zs None"
    using d(4) by (intro chain_frame m3_other) auto
  ultimately have cc: "chain ?m3 None (ys @ zs) None"
    using m2_ys m2_zs by (simp add: chain_append)
  have lv1: "live ?m1 = live ?m" by (simp add: live_set_nextLinked split: option.split)
  have lv2: "live ?m2 = live ?m" by (simp add: live_set_prevLinked lv1 split: option.split)
  have lv: "live ?m3 = (live ?m)(x := False)"
    by (simp add: live_set_nextLinked live_set_prevLinked live_set_free lv2)
  have fi: "?fi = head_or None (ys @ zs)"
  proof (cases "ys = []")
    case True
    then show ?thesis by simp
  next
    case False
    then have "?p \<noteq> None" by (simp add: last_or_None_iff)
    moreover have "first l = head_or None ys"
      using dll False by (cases ys) (simp_all add: is_dll_def)
    moreover have "head_or None (ys @ zs) = head_or None ys"
      using False by (cases ys) simp_all
    ultimately show ?thesis by auto
  qed
  have la: "?la = last_or None (ys @ zs)"
  proof (cases "zs = []")
    case True
    then show ?thesis by simp
  next
    case False
    then have "?n \<noteq> None" by (simp add: head_or_None_iff)
    moreover have "last_l l = last_or None zs"
      using dll False by (simp add: is_dll_def last_or_append last_or_nonempty)
    moreover have "last_or None (ys @ zs) = last_or None zs"
      using False by (simp add: last_or_append last_or_nonempty)
    ultimately show ?thesis by auto
  qed
  have co: "count l - 1 = int (length (ys @ zs))" using dll by (simp add: is_dll_def)
  have hs: "\<And>k. live ?m3 k = (k \<in> set (ys @ zs))"
    using dll d by (auto simp: lv is_dll_def has_live)
  have dd: "distinct (ys @ zs)" using d by simp
  have "is_dll ?l1 (ys @ zs)"
    unfolding is_dll_def has_live using cc fi la co hs dd by simp
  moreover have "dom ?m3 = dom ?m"
    by (simp add: dom_set_nextLinked dom_set_prevLinked dom_set_free split: option.split)
  ultimately show ?thesis by (simp add: rm)
qed

lemma LinkedList_remove_dll:
  assumes dll: "is_dll l xs" and mem: "x \<in> set xs"
  shows "fst (LinkedList_remove l x) = True \<and>
         is_dll (snd (LinkedList_remove l x)) (remove1 x xs) \<and>
         uniqueId (snd (LinkedList_remove l x)) = uniqueId l \<and>
         dom (objToNodeMap (snd (LinkedList_remove l x))) = dom (objToNodeMap l)"
proof -
  from mem obtain ys zs where xs: "xs = ys @ x # zs" and nin: "x \<notin> set ys"
    by (auto dest: split_list_first)
  have "remove1 x xs = ys @ zs" using xs nin by (simp add: remove1_append)
  then show ?thesis using LinkedList_remove_split [of l ys x zs] dll xs by simp
qed

lemma LinkedList_append_returned:
  assumes "fst (LinkedList_append l x) = Returned ()"
  shows "last_l (snd (LinkedList_append l x)) = Some x \<and>
         count (snd (LinkedList_append l x)) = count l + 1 \<and>
         live (objToNodeMap (snd (LinkedList_append l x))) = live (objToNodeMap l) \<and>
         uniqueId (snd (LinkedList_append l x)) = uniqueId l"
  using assms
  by (auto simp: LinkedList_append_def live_set_nextLinked live_set_prevLinked split: option.splits)

lemma LinkedList_add_returned:
  assumes "fst (LinkedList_add l x) = Returned ()"
  shows "\<not> LinkedList_has l x \<and> LinkedList_has (snd (LinkedList_add l x)) x \<and>
         last_l (snd (LinkedList_add l x)) = Some x \<and>
         count (snd (LinkedList_add l x)) = count l + 1 \<and>
         uniqueId (snd (LinkedList_add l x)) = uniqueId l"
proof -
  have nh: "\<not> LinkedList_has l x"
    using assms LinkedList_add_duplicate [of l x] by auto
  let ?l0 = "l\<lparr>objToNodeMap := (objToNodeMap l)(x \<mapsto> fresh_node x)\<rparr>"
  have eq: "LinkedList_add l x = LinkedList_append ?l0 x"
    by (rule LinkedList_add_not_has [OF nh])
  have "live (objToNodeMap ?l0) x" by (simp add: live_upd fresh_node_def)
  then show ?thesis
    using nh LinkedList_append_returned [of ?l0 x] assms by (simp add: eq has_live)
qed

lemma LinkedList_remove_present:
  assumes "LinkedList_has l x"
  shows "fst (LinkedList_remove l x) = True \<and>
         count (snd (LinkedList_remove l x)) = count l - 1 \<and>
         \<not> LinkedList_has (snd (LinkedList_remove l x)) x \<and>
         uniqueId (snd (LinkedList_remove l x)) = uniqueId l"
proof -
  from assms obtain node where node: "objToNodeMap l x = Some node" "free node = False"
    by (auto simp: LinkedList_has_def LinkedList_getNode_def split: option.splits)
  show ?thesis
    using node
    by (simp add: LinkedList_remove_def LinkedList_getNode_def Let_def has_live
        live_set_nextLinked live_set_prevLinked live_set_free)
qed


lemma is_dll_init: "is_dll (LinkedList_init i) []"
  by (simp add: is_dll_def LinkedList_init_def LinkedList_has_def LinkedList_getNode_def)

lemma new_objects_fields:
  "nextId (new_objects k t w) = nextId w + k \<and>
   totalPooled (new_objects k t w) = totalPooled w \<and>
   pools (new_objects k t w) = pools w \<and>
   INITIAL_POOL_SIZE (new_objects k t w) = INITIAL_POOL_SIZE w"
  by (induction k arbitrary: w) (simp_all add: new_object_def)

lemma new_objects_old:
  "x < nextId w \<Longrightarrow>
   destroyed (new_objects k t w) x = destroyed w x \<and>
   Class_fullName (new_objects k t w) x = Class_fullName w x"
  by (induction k arbitrary: w) (simp_all add: new_object_def)

lemma new_objects_new:
  "nextId w \<le> x \<Longrightarrow> x < nextId w + k \<Longrightarrow>
   destroyed (new_objects k t w) x = False \<and> Class_fullName (new_objects k t w) x = t"
proof (induction k arbitrary: w)
  case 0
  then show ?case by simp
next
  case (Suc k)
  show ?case
  proof (cases "x = nextId w")
    case True
    then show ?thesis
      using new_objects_old [of x "snd (new_object t w)" k t]
      by (simp add: new_object_def)
  next
    case False
    then show ?thesis
      using Suc.IH [of "snd (new_object t w)"] Suc.prems by (simp add: new_object_def)
  qed
qed

lemma expand_loop_dll:
  assumes "is_dll (freeList p) fs" and "list_all (\<lambda>x. x < nextId w) fs"
  shows "fst (expand_loop k p w) = Returned () \<and>
         is_dll (freeList (fst (snd (expand_loop k p w)))) (fs @ [nextId w ..< nextId w + k]) \<and>
         uniqueId (freeList (fst (snd (expand_loop k p w)))) = uniqueId (freeList p) \<and>
         fst (snd (expand_loop k p w)) = p\<lparr>freeList := freeList (fst (snd (expand_loop k p w)))\<rparr> \<and>
         snd (snd (expand_loop k p w)) = new_objects k (classType p) w"
  using assms
proof (induction k arbitrary: p w fs)
  case 0
  then show ?case by simp
next
  case (Suc k)
  let ?x = "nextId w"
  let ?w1 = "snd (new_object (classType p) w)"
  have nin: "?x \<notin> set fs" using Suc.prems(2) by (auto simp: list_all_iff)
  obtain r fl1 where A: "LinkedList_add (freeList p) ?x = (r, fl1)"
    by (cases "LinkedList_add (freeList p) ?x")
  have a: "r = Returned ()" "is_dll fl1 (fs @ [?x])" "uniqueId fl1 = uniqueId (freeList p)"
    using LinkedList_add_dll [OF Suc.prems(1) nin] A by simp_all
  let ?p1 = "p\<lparr>freeList := fl1\<rparr>"
  have step: "expand_loop (Suc k) p w = expand_loop k ?p1 ?w1"
    using A a(1) by (simp add: new_object_def)
  have n1: "nextId ?w1 = Suc ?x" by (simp add: new_object_def)
  have la: "list_all (\<lambda>x. x < nextId ?w1) (fs @ [?x])"
    using Suc.prems(2) by (auto simp: list_all_iff n1)
  have d1: "is_dll (freeList ?p1) (fs @ [?x])" using a(2) by simp
  have ih: "fst (expand_loop k ?p1 ?w1) = Returned () \<and>
         is_dll (freeList (fst (snd (expand_loop k ?p1 ?w1)))) ((fs @ [?x]) @ [nextId ?w1 ..< nextId ?w1 + k]) \<and>
         uniqueId (freeList (fst (snd (expand_loop k ?p1 ?w1)))) = uniqueId (freeList ?p1) \<and>
         fst (snd (expand_loop k ?p1 ?w1)) = ?p1\<lparr>freeList := freeList (fst (snd (expand_loop k ?p1 ?w1)))\<rparr> \<and>
         snd (snd (expand_loop k ?p1 ?w1)) = new_objects k (classType ?p1) ?w1"
    by (rule Suc.IH [OF d1 la])
  have up: "(fs @ [?x]) @ [nextId ?w1 ..< nextId ?w1 + k] = fs @ [?x ..< ?x + Suc k]"
    by (simp add: n1 upt_rec [of ?x])
  obtain r2 p2 w2 where E: "expand_loop k ?p1 ?w1 = (r2, p2, w2)"
    by (cases "expand_loop k ?p1 ?w1") auto
  have p2: "p2 = ?p1\<lparr>freeList := freeList p2\<rparr>" using ih E by simp
  have "p2 = p\<lparr>freeList := freeList p2\<rparr>" by (subst p2) simp
  then show ?case
    using ih a(3) E unfolding step up by simp
qed

lemma Pool_expand_dll:
  assumes "is_dll (freeList p) fs" and "list_all (\<lambda>x. x < nextId w) fs"
  shows "fst (Pool_expand p w n) = Returned () \<and>
         is_dll (freeList (fst (snd (Pool_expand p w n)))) (fs @ [nextId w ..< nextId w + nat n]) \<and>
         uniqueId (freeList (fst (snd (Pool_expand p w n)))) = uniqueId (freeList p) \<and>
         fst (snd (Pool_expand p w n)) = p\<lparr>freeList := freeList (fst (snd (Pool_expand p w n)))\<rparr> \<and>
         snd (snd (Pool_expand p w n)) =
           new_objects (nat n) (classType p) (w\<lparr>totalPooled := totalPooled w + n\<rparr>)"
  unfolding Pool_expand_def
  using expand_loop_dll [of p fs "w\<lparr>totalPooled := totalPooled w + n\<rparr>" "nat n"] assms
  by simp

lemma Pool_release_dll:
  assumes f: "is_dll (freeList p) fs" and u: "is_dll (usedList p) us" and nin: "x \<notin> set fs"
  shows "fst (Pool_release p w x) = Returned () \<and>
         is_dll (freeList (fst (snd (Pool_release p w x)))) (fs @ [x]) \<and>
         is_dll (usedList (fst (snd (Pool_release p w x)))) (remove1 x us) \<and>
         (x \<notin> set us \<longrightarrow> usedList (fst (snd (Pool_release p w x))) = usedList p) \<and>
         uniqueId (freeList (fst (snd (Pool_release p w x)))) = uniqueId (freeList p) \<and>
         uniqueId (usedList (fst (snd (Pool_release p w x)))) = uniqueId (usedList p) \<and>
         fst (snd (Pool_release p w x)) =
           p\<lparr>freeList := freeList (fst (snd (Pool_release p w x))),
             usedList := usedList (fst (snd (Pool_release p w x)))\<rparr> \<and>
         snd (snd (Pool_release p w x)) = w\<lparr>destroyed := (destroyed w)(x := True)\<rparr>"
proof -
  obtain r fl where A: "LinkedList_add (freeList p) x = (r, fl)"
    by (cases "LinkedList_add (freeList p) x")
  have a: "r = Returned ()" "is_dll fl (fs @ [x])" "uniqueId fl = uniqueId (freeList p)"
    using LinkedList_add_dll [OF f nin] A by simp_all
  obtain b ul where R: "LinkedList_remove (usedList p) x = (b, ul)"
    by (cases "LinkedList_remove (usedList p) x")
  have rel: "Pool_release p w x =
      (Returned (), p\<lparr>freeList := fl, usedList := ul\<rparr>, w\<lparr>destroyed := (destroyed w)(x := True)\<rparr>)"
    using A R a(1) by (simp add: Pool_release_def)
  have ul: "is_dll ul (remove1 x us) \<and> uniqueId ul = uniqueId (usedList p) \<and>
            (x \<notin> set us \<longrightarrow> ul = usedList p)"
  proof (cases "x \<in> set us")
    case True
    then show ?thesis using LinkedList_remove_dll [OF u True] R by simp
  next
    case False
    then have "\<not> LinkedList_has (usedList p) x" using u by (simp add: is_dll_def)
    then have "ul = usedList p" using LinkedList_remove_absent [of "usedList p" x] R by simp
    then show ?thesis using u False by (simp add: remove1_idem)
  qed
  show ?thesis using a ul by (simp add: rel)
qed

lemma Pool_acquire_take_dll:
  assumes f: "is_dll (freeList p) (y # fs)" and u: "is_dll (usedList p) us" and nin: "y \<notin> set us"
  shows "fst (Pool_acquire_take p w) = Returned y \<and>
         is_dll (freeList (fst (snd (Pool_acquire_take p w)))) fs \<and>
         is_dll (usedList (fst (snd (Pool_acquire_take p w)))) (us @ [y]) \<and>
         uniqueId (freeList (fst (snd (Pool_acquire_take p w)))) = uniqueId (freeList p) \<and>
         uniqueId (usedList (fst (snd (Pool_acquire_take p w)))) = uniqueId (usedList p) \<and>
         fst (snd (Pool_acquire_take p w)) =
           p\<lparr>freeList := freeList (fst (snd (Pool_acquire_take p w))),
             usedList := usedList (fst (snd (Pool_acquire_take p w))),
             returnObj := Some y\<rparr> \<and>
         snd (snd (Pool_acquire_take p w)) = w\<lparr>destroyed := (destroyed w)(y := False)\<rparr>"
proof -
  have fi: "first (freeList p) = Some y" using f by (simp add: is_dll_def)
  obtain node where node: "objToNodeMap (freeList p) y = Some node" "obj node = y"
    using f by (auto simp: is_dll_def split: option.splits)
  obtain b fl where R: "LinkedList_remove (freeList p) y = (b, fl)"
    by (cases "LinkedList_remove (freeList p) y")
  have r: "is_dll fl fs" "uniqueId fl = uniqueId (freeList p)"
    using LinkedList_remove_split [of "freeList p" "[]" y fs] f R by simp_all
  obtain r2 ul where A: "LinkedList_add (usedList p) y = (r2, ul)"
    by (cases "LinkedList_add (usedList p) y")
  have a: "r2 = Returned ()" "is_dll ul (us @ [y])" "uniqueId ul = uniqueId (usedList p)"
    using LinkedList_add_dll [OF u nin] A by simp_all
  have "Pool_acquire_take p w =
      (Returned y, p\<lparr>returnObj := Some y, freeList := fl, usedList := ul\<rparr>,
       w\<lparr>destroyed := (destroyed w)(y := False)\<rparr>)"
    using fi node R A a(1) by (simp add: Pool_acquire_take_def)
  then show ?thesis using r a by simp
qed

lemma Pool_size_inv: "pool_inv p w fs us \<Longrightarrow> Pool_size p = int (length fs) + int (length us)"
  by (simp add: pool_inv_def is_dll_def Pool_size_def)

lemma Math_round_fifth_nonneg: "0 \<le> s \<Longrightarrow> 0 \<le> Math_round_fifth s"
  by (simp add: Math_round_fifth_def)

lemma Pool_init_inv:
  "fst (Pool_init t n w) = Returned () \<and>
   pool_inv (fst (snd (Pool_init t n w))) (snd (snd (Pool_init t n w)))
     [nextId w + 2 ..< nextId w + 2 + nat n] [] \<and>
   classType (fst (snd (Pool_init t n w))) = t \<and>
   initialSize (fst (snd (Pool_init t n w))) = n \<and>
   uniqueId (freeList (fst (snd (Pool_init t n w)))) = nextId w \<and>
   uniqueId (usedList (fst (snd (Pool_init t n w)))) = nextId w + 1 \<and>
   snd (snd (Pool_init t n w)) =
     new_objects (nat n) t (w\<lparr>nextId := nextId w + 2, totalPooled := totalPooled w + n\<rparr>)"
proof -
  let ?p0 = "\<lparr>freeList = LinkedList_init (nextId w), usedList = LinkedList_init (nextId w + 1),
              initialSize = n, classType = t, returnObj = None\<rparr>"
  let ?w2 = "w\<lparr>nextId := nextId w + 2\<rparr>"
  have eq: "Pool_init t n w = Pool_expand ?p0 ?w2 n"
    by (simp add: Pool_init_def new_LinkedList_def)
  have f: "is_dll (freeList ?p0) []" by (simp add: is_dll_init)
  let ?N = "nextId w + 2"
  have N: "nextId ?w2 = ?N" by simp
  have e: "fst (Pool_expand ?p0 ?w2 n) = Returned () \<and>
         is_dll (freeList (fst (snd (Pool_expand ?p0 ?w2 n)))) ([] @ [nextId ?w2 ..< nextId ?w2 + nat n]) \<and>
         uniqueId (freeList (fst (snd (Pool_expand ?p0 ?w2 n)))) = uniqueId (freeList ?p0) \<and>
         fst (snd (Pool_expand ?p0 ?w2 n)) = ?p0\<lparr>freeList := freeList (fst (snd (Pool_expand ?p0 ?w2 n)))\<rparr> \<and>
         snd (snd (Pool_expand ?p0 ?w2 n)) =
           new_objects (nat n) (classType ?p0) (?w2\<lparr>totalPooled := totalPooled ?w2 + n\<rparr>)"
    by (rule Pool_expand_dll [OF f]) simp
  obtain r pe we where E: "Pool_expand ?p0 ?w2 n = (r, pe, we)"
    by (cases "Pool_expand ?p0 ?w2 n") auto
  have r: "r = Returned ()" using e E by simp
  have pe: "pe = ?p0\<lparr>freeList := freeList pe\<rparr>" using e E by simp
  have u: "usedList pe = LinkedList_init (nextId w + 1)" "classType pe = t" "initialSize pe = n"
    by (subst pe, simp)+
  have ui: "uniqueId (freeList pe) = nextId w" "uniqueId (usedList pe) = nextId w + 1"
    using e E u(1) by (simp_all add: LinkedList_init_def)
  have we: "we = new_objects (nat n) t (w\<lparr>nextId := nextId w + 2, totalPooled := totalPooled w + n\<rparr>)"
    using e E by simp
  have nx: "nextId we = ?N + nat n" by (simp add: we new_objects_fields)
  have fl: "is_dll (freeList pe) [?N ..< ?N + nat n]"
    using e unfolding E N by (simp only: append_Nil fst_conv snd_conv)
  have la: "list_all (\<lambda>x. x < nextId we) ([?N ..< ?N + nat n] @ [])"
    unfolding nx list_all_iff by (simp del: upt_Suc)
  have "pool_inv pe we [?N ..< ?N + nat n] []"
    unfolding pool_inv_def using fl la u(1) by (simp add: is_dll_init list_all_iff del: upt_Suc)
  then show ?thesis
    unfolding eq E fst_conv snd_conv using r u(2,3) ui we by simp
qed

lemma Pool_acquire_nonempty:
  assumes inv: "pool_inv p w (y # fs) us"
  shows "fst (Pool_acquire p w) = Returned y \<and>
         pool_inv (fst (snd (Pool_acquire p w))) (snd (snd (Pool_acquire p w))) fs (us @ [y]) \<and>
         same_pool p (fst (snd (Pool_acquire p w))) \<and>
         snd (snd (Pool_acquire p w)) = w\<lparr>destroyed := (destroyed w)(y := False)\<rparr>"
proof -
  have f: "is_dll (freeList p) (y # fs)" and u: "is_dll (usedList p) us" and nin: "y \<notin> set us"
    using inv by (simp_all add: pool_inv_def)
  have "first (freeList p) = Some y" using f by (simp add: is_dll_def)
  then have eq: "Pool_acquire p w = Pool_acquire_take p w" by (simp add: Pool_acquire_def)
  obtain r p1 w1 where T: "Pool_acquire_take p w = (r, p1, w1)"
    by (cases "Pool_acquire_take p w") auto
  have t: "r = Returned y" "is_dll (freeList p1) fs" "is_dll (usedList p1) (us @ [y])"
    "uniqueId (freeList p1) = uniqueId (freeList p)" "uniqueId (usedList p1) = uniqueId (usedList p)"
    "p1 = p\<lparr>freeList := freeList p1, usedList := usedList p1, returnObj := Some y\<rparr>"
    "w1 = w\<lparr>destroyed := (destroyed w)(y := False)\<rparr>"
    using Pool_acquire_take_dll [OF f u nin, of w] T by simp_all
  have c: "classType p1 = classType p" "initialSize p1 = initialSize p"
    by (subst t(6), simp)+
  have d: "y \<notin> set fs" using f by (simp add: is_dll_def)
  have "pool_inv p1 w1 fs (us @ [y])"
    using inv t(2,3,7) d by (auto simp: pool_inv_def list_all_iff)
  then show ?thesis using t(1,4,5,7) c by (simp add: eq T same_pool_def)
qed

lemma Pool_acquire_empty:
  assumes inv: "pool_inv p w [] us" and k: "k = Math_round_fifth (Pool_size p) + 1"
  shows "1 \<le> k \<and>
         fst (Pool_expand p w k) = Returned () \<and>
         pool_inv (fst (snd (Pool_expand p w k))) (snd (snd (Pool_expand p w k)))
           (nextId w # [Suc (nextId w) ..< nextId w + nat k]) us \<and>
         same_pool p (fst (snd (Pool_expand p w k))) \<and>
         snd (snd (Pool_expand p w k)) =
           new_objects (nat k) (classType p) (w\<lparr>totalPooled := totalPooled w + k\<rparr>) \<and>
         Pool_acquire p w =
           Pool_acquire_take (fst (snd (Pool_expand p w k))) (snd (snd (Pool_expand p w k)))"
proof -
  have f: "is_dll (freeList p) []" and u: "is_dll (usedList p) us"
    and fr: "list_all (\<lambda>x. x < nextId w) us"
    using inv by (simp_all add: pool_inv_def)
  have "0 \<le> Pool_size p" using Pool_size_inv [OF inv] by simp
  then have k1: "1 \<le> k" using Math_round_fifth_nonneg [of "Pool_size p"] k by simp
  obtain r pe we where E: "Pool_expand p w k = (r, pe, we)"
    by (cases "Pool_expand p w k") auto
  have e: "r = Returned ()" "is_dll (freeList pe) ([] @ [nextId w ..< nextId w + nat k])"
    "uniqueId (freeList pe) = uniqueId (freeList p)" "pe = p\<lparr>freeList := freeList pe\<rparr>"
    "we = new_objects (nat k) (classType p) (w\<lparr>totalPooled := totalPooled w + k\<rparr>)"
    using Pool_expand_dll [OF f, of w k] E by simp_all
  have o: "usedList pe = usedList p" "classType pe = classType p" "initialSize pe = initialSize p"
    by (subst e(4), simp)+
  have up: "[nextId w ..< nextId w + nat k] = nextId w # [Suc (nextId w) ..< nextId w + nat k]"
    using k1 by (simp add: upt_rec [of "nextId w"])
  have nx: "nextId we = nextId w + nat k" by (simp add: e(5) new_objects_fields)
  have "pool_inv pe we (nextId w # [Suc (nextId w) ..< nextId w + nat k]) us"
    using e(2) u fr o(1) k1 unfolding pool_inv_def up nx
    by (auto simp: list_all_iff)
  moreover have "Pool_acquire p w = Pool_acquire_take pe we"
    using f E e(1) k by (simp add: Pool_acquire_def is_dll_def)
  ultimately show ?thesis
    using k1 e(1,3,5) o by (simp add: E same_pool_def)
qed

lemma Math_round_fifth_1: "Math_round_fifth 1 = 0"
  by (simp add: Math_round_fifth_def)

lemma scenario_fresh_inv:
  "pool_inv (fst scenario_fresh) (snd scenario_fresh) [2] [] \<and>
   uniqueId (freeList (fst scenario_fresh)) = 0 \<and>
   uniqueId (usedList (fst scenario_fresh)) = 1 \<and>
   nextId (snd scenario_fresh) = 3 \<and> totalPooled (snd scenario_fresh) = 1"
proof -
  have n0: "nextId world0 = 0" "totalPooled world0 = 0" by (simp_all add: world0_def)
  have u: "[nextId world0 + 2 ..< nextId world0 + 2 + nat 1] = [2]"
    by (simp add: n0 upt_rec)
  obtain r p w where I: "Pool_init ''Point'' 1 world0 = (r, p, w)"
    by (cases "Pool_init ''Point'' 1 world0") auto
  have f: "pool_inv p w [2] []" "uniqueId (freeList p) = 0" "uniqueId (usedList p) = 1"
    "w = new_objects (nat 1) ''Point'' (world0\<lparr>nextId := nextId world0 + 2, totalPooled := totalPooled world0 + 1\<rparr>)"
    using Pool_init_inv [of "''Point''" 1 world0] unfolding I u fst_conv snd_conv
    by (auto simp: n0)
  have "nextId w = 3" "totalPooled w = 1"
    unfolding f(4) by (simp_all add: new_object_def n0)
  then show ?thesis using f(1-3) by (simp add: scenario_fresh_def I)
qed

lemma scenario_A_inv:
  "fst (Pool_acquire (fst scenario_fresh) (snd scenario_fresh)) = Returned 2 \<and>
   pool_inv (fst scenario_A) (snd scenario_A) [] [2] \<and>
   uniqueId (freeList (fst scenario_A)) = 0 \<and>
   uniqueId (usedList (fst scenario_A)) = 1 \<and>
   nextId (snd scenario_A) = 3 \<and> totalPooled (snd scenario_A) = 1"
proof -
  have i: "pool_inv (fst scenario_fresh) (snd scenario_fresh) [2] []"
    using scenario_fresh_inv by simp
  obtain r p w where A: "Pool_acquire (fst scenario_fresh) (snd scenario_fresh) = (r, p, w)"
    by (cases "Pool_acquire (fst scenario_fresh) (snd scenario_fresh)") auto
  have f: "r = Returned 2" "pool_inv p w [] ([] @ [2])" "same_pool (fst scenario_fresh) p"
    "w = (snd scenario_fresh)\<lparr>destroyed := (destroyed (snd scenario_fresh))(2 := False)\<rparr>"
    using Pool_acquire_nonempty [OF i] unfolding A fst_conv snd_conv by auto
  have "nextId w = 3" "totalPooled w = 1" unfolding f(4) using scenario_fresh_inv by simp_all
  then show ?thesis
    using f(1-3) scenario_fresh_inv by (simp add: scenario_A_def A same_pool_def)
qed

lemma scenario_B_inv:
  "fst (Pool_acquire (fst scenario_A) (snd scenario_A)) = Returned 3 \<and>
   pool_inv (fst scenario_B) (snd scenario_B) [] [2, 3] \<and>
   uniqueId (freeList (fst scenario_B)) = 0 \<and>
   totalPooled (snd scenario_B) = 2"
proof -
  have i: "pool_inv (fst scenario_A) (snd scenario_A) [] [2]"
    using scenario_A_inv by simp
  have s: "Pool_size (fst scenario_A) = 1" using Pool_size_inv [OF i] by simp
  have k: "(1::int) = Math_round_fifth (Pool_size (fst scenario_A)) + 1"
    by (simp add: s Math_round_fifth_1)
  obtain re pe we where E: "Pool_expand (fst scenario_A) (snd scenario_A) 1 = (re, pe, we)"
    by (cases "Pool_expand (fst scenario_A) (snd scenario_A) 1") auto
  have n3: "nextId (snd scenario_A) = 3" using scenario_A_inv by simp
  have u: "nextId (snd scenario_A) # [Suc (nextId (snd scenario_A)) ..< nextId (snd scenario_A) + nat 1] = [3]"
    by (simp add: n3)
  have e: "pool_inv pe we [3] [2]" "same_pool (fst scenario_A) pe"
    "we = new_objects (nat 1) (classType (fst scenario_A))
        ((snd scenario_A)\<lparr>totalPooled := totalPooled (snd scenario_A) + 1\<rparr>)"
    "Pool_acquire (fst scenario_A) (snd scenario_A) = Pool_acquire_take pe we"
    using Pool_acquire_empty [OF i k] unfolding E u fst_conv snd_conv by auto
  have ne: "first (freeList pe) = Some 3" using e(1) by (simp add: pool_inv_def is_dll_def)
  then have t: "Pool_acquire_take pe we = Pool_acquire pe we"
    by (simp add: Pool_acquire_def)
  have tp: "totalPooled we = 2"
    using scenario_A_inv by (simp add: e(3) new_object_def)
  obtain r p w where A: "Pool_acquire pe we = (r, p, w)"
    by (cases "Pool_acquire pe we") auto
  have f: "r = Returned 3" "pool_inv p w [] ([2] @ [3])" "same_pool pe p"
    "w = we\<lparr>destroyed := (destroyed we)(3 := False)\<rparr>"
    using Pool_acquire_nonempty [OF e(1)] unfolding A fst_conv snd_conv by auto
  have "totalPooled w = 2" unfolding f(4) using tp by simp
  then show ?thesis
    using f(1-3) e(2) scenario_A_inv
    by (simp add: scenario_B_def e(4) t A same_pool_def)
qed

lemma same_pool_trans: "same_pool p q \<Longrightarrow> same_pool q r \<Longrightarrow> same_pool p r"
  by (simp add: same_pool_def)

lemma same_pool_refl: "same_pool p p"
  by (simp add: same_pool_def)

lemma Pool_acquire_inv:
  assumes inv: "pool_inv p w fs us"
    and k: "k = Math_round_fifth (Pool_size p) + 1"
    and x: "x = (case fs of [] \<Rightarrow> nextId w | y # ys \<Rightarrow> y)"
    and fs': "fs' = (case fs of [] \<Rightarrow> [Suc (nextId w) ..< nextId w + nat k] | y # ys \<Rightarrow> ys)"
  shows "fst (Pool_acquire p w) = Returned x \<and>
         pool_inv (fst (snd (Pool_acquire p w))) (snd (snd (Pool_acquire p w))) fs' (us @ [x]) \<and>
         x \<notin> set fs' \<and>
         same_pool p (fst (snd (Pool_acquire p w))) \<and>
         totalPooled (snd (snd (Pool_acquire p w))) = totalPooled w + (if fs = [] then k else 0)"
proof (cases fs)
  case Nil
  obtain re pe we where E: "Pool_expand p w k = (re, pe, we)"
    by (cases "Pool_expand p w k") auto
  have e: "1 \<le> k" "pool_inv pe we (x # fs') us" "same_pool p pe"
    "we = new_objects (nat k) (classType p) (w\<lparr>totalPooled := totalPooled w + k\<rparr>)"
    "Pool_acquire p w = Pool_acquire_take pe we"
    using Pool_acquire_empty [OF inv [unfolded Nil] k] x fs' Nil
    unfolding E fst_conv snd_conv by auto
  have "first (freeList pe) = Some x" using e(2) by (simp add: pool_inv_def is_dll_def)
  then have t: "Pool_acquire_take pe we = Pool_acquire pe we" by (simp add: Pool_acquire_def)
  obtain r p1 w1 where A: "Pool_acquire pe we = (r, p1, w1)"
    by (cases "Pool_acquire pe we") auto
  have a: "r = Returned x" "pool_inv p1 w1 fs' (us @ [x])" "same_pool pe p1"
    "w1 = we\<lparr>destroyed := (destroyed we)(x := False)\<rparr>"
    using Pool_acquire_nonempty [OF e(2)] unfolding A fst_conv snd_conv by auto
  have nin: "x \<notin> set fs'" using e(2) by (simp add: pool_inv_def is_dll_def)
  have "totalPooled w1 = totalPooled w + k" by (simp add: a(4) e(4) new_objects_fields)
  then show ?thesis
    unfolding e(5) t A fst_conv snd_conv
    using a(1,2) nin same_pool_trans [OF e(3) a(3)] Nil by simp
next
  case (Cons y ys)
  then have xy: "x = y" "fs' = ys" using x fs' by simp_all
  obtain r p1 w1 where A: "Pool_acquire p w = (r, p1, w1)"
    by (cases "Pool_acquire p w") auto
  have a: "r = Returned x" "pool_inv p1 w1 fs' (us @ [x])" "same_pool p p1"
    "w1 = w\<lparr>destroyed := (destroyed w)(x := False)\<rparr>"
    using Pool_acquire_nonempty [OF inv [unfolded Cons]] unfolding A fst_conv snd_conv xy by auto
  have nin: "x \<notin> set fs'" using inv Cons xy by (simp add: pool_inv_def is_dll_def)
  show ?thesis
    unfolding A fst_conv snd_conv using a nin Cons by simp
qed

lemma LinkedList_append_uniqueId: "uniqueId (snd (LinkedList_append l x)) = uniqueId l"
  by (simp add: LinkedList_append_def split: option.split)

lemma LinkedList_add_uniqueId: "uniqueId (snd (LinkedList_add l x)) = uniqueId l"
  by (simp add: LinkedList_add_def LinkedList_addNode_def LinkedList_append_uniqueId
      split: option.split)

lemma LinkedList_remove_uniqueId: "uniqueId (snd (LinkedList_remove l x)) = uniqueId l"
  by (simp add: LinkedList_remove_def Let_def split: option.split)

lemma LinkedList_add_wf: "wf_list l \<Longrightarrow> wf_list (snd (LinkedList_add l x))"
proof -
  assume "wf_list l"
  then obtain xs where d: "is_dll l xs" by (auto simp: wf_list_def)
  show ?thesis
  proof (cases "LinkedList_has l x")
    case True
    then show ?thesis using d by (auto simp: LinkedList_add_duplicate wf_list_def)
  next
    case False
    then have "x \<notin> set xs" using d by (simp add: is_dll_def)
    then show ?thesis using LinkedList_add_dll [OF d] by (auto simp: wf_list_def)
  qed
qed

lemma LinkedList_remove_wf: "wf_list l \<Longrightarrow> wf_list (snd (LinkedList_remove l x))"
proof -
  assume "wf_list l"
  then obtain xs where d: "is_dll l xs" by (auto simp: wf_list_def)
  show ?thesis
  proof (cases "LinkedList_has l x")
    case True
    then have "x \<in> set xs" using d by (simp add: is_dll_def)
    then show ?thesis using LinkedList_remove_dll [OF d] by (auto simp: wf_list_def)
  next
    case False
    then show ?thesis using d by (auto simp: LinkedList_remove_absent wf_list_def)
  qed
qed

lemma wf_list_count: "wf_list l \<Longrightarrow> 0 \<le> count l"
  by (auto simp: wf_list_def is_dll_def)

lemma new_object_statics:
  "pools (snd (new_object t w)) = pools w \<and>
   INITIAL_POOL_SIZE (snd (new_object t w)) = INITIAL_POOL_SIZE w \<and>
   totalPooled (snd (new_object t w)) = totalPooled w"
  by (simp add: new_object_def)

lemma expand_loop_any:
  "wf_pool p \<Longrightarrow>
   wf_pool (fst (snd (expand_loop k p w))) \<and> same_pool p (fst (snd (expand_loop k p w))) \<and>
   pools (snd (snd (expand_loop k p w))) = pools w \<and>
   INITIAL_POOL_SIZE (snd (snd (expand_loop k p w))) = INITIAL_POOL_SIZE w \<and>
   totalPooled (snd (snd (expand_loop k p w))) = totalPooled w"
proof (induction k arbitrary: p w)
  case 0
  then show ?case by (simp add: same_pool_def)
next
  case (Suc k)
  let ?x = "nextId w" and ?w1 = "snd (new_object (classType p) w)"
  obtain r fl where A: "LinkedList_add (freeList p) ?x = (r, fl)"
    by (cases "LinkedList_add (freeList p) ?x")
  have fl: "wf_list fl" "uniqueId fl = uniqueId (freeList p)"
    using LinkedList_add_wf [of "freeList p" ?x] LinkedList_add_uniqueId [of "freeList p" ?x]
      Suc.prems A by (simp_all add: wf_pool_def)
  let ?p1 = "p\<lparr>freeList := fl\<rparr>"
  have p1: "wf_pool ?p1" "same_pool p ?p1"
    using Suc.prems fl by (simp_all add: wf_pool_def same_pool_def)
  show ?case
  proof (cases r)
    case (Thrown e)
    then have "expand_loop (Suc k) p w = (Thrown e, ?p1, ?w1)"
      using A by (simp add: new_object_def)
    then show ?thesis using p1 new_object_statics [of "classType p" w] by simp
  next
    case (Returned u)
    then have "expand_loop (Suc k) p w = expand_loop k ?p1 ?w1"
      using A by (simp add: new_object_def)
    then show ?thesis
      using Suc.IH [OF p1(1), of ?w1] p1(2) new_object_statics [of "classType p" w]
      by (auto intro: same_pool_trans)
  qed
qed

lemma Pool_expand_any:
  "wf_pool p \<Longrightarrow>
   wf_pool (fst (snd (Pool_expand p w n))) \<and> same_pool p (fst (snd (Pool_expand p w n))) \<and>
   pools (snd (snd (Pool_expand p w n))) = pools w \<and>
   INITIAL_POOL_SIZE (snd (snd (Pool_expand p w n))) = INITIAL_POOL_SIZE w \<and>
   totalPooled (snd (snd (Pool_expand p w n))) = totalPooled w + n"
  unfolding Pool_expand_def
  using expand_loop_any [of p "nat n" "w\<lparr>totalPooled := totalPooled w + n\<rparr>"] by simp

lemma Pool_expand_totalPooled:
  "totalPooled (snd (snd (Pool_expand p w n))) = totalPooled w + n"
proof -
  have "\<And>p w. totalPooled (snd (snd (expand_loop k p w))) = totalPooled w" for k
  proof (induction k)
    case 0
    show ?case by simp
  next
    case (Suc k)
    show ?case
      by (cases "LinkedList_add (freeList p) (nextId w)"; cases "fst (LinkedList_add (freeList p) (nextId w))")
         (simp_all add: new_object_def Suc.IH)
  qed
  then show ?thesis by (simp add: Pool_expand_def)
qed

lemma Pool_acquire_take_any:
  "wf_pool p \<Longrightarrow>
   wf_pool (fst (snd (Pool_acquire_take p w))) \<and> same_pool p (fst (snd (Pool_acquire_take p w))) \<and>
   pools (snd (snd (Pool_acquire_take p w))) = pools w \<and>
   INITIAL_POOL_SIZE (snd (snd (Pool_acquire_take p w))) = INITIAL_POOL_SIZE w \<and>
   totalPooled (snd (snd (Pool_acquire_take p w))) = totalPooled w"
proof -
  assume wf: "wf_pool p"
  show ?thesis
  proof (cases "first (freeList p)")
    case None
    then show ?thesis using wf by (simp add: Pool_acquire_take_def same_pool_def)
  next
    case (Some f)
    show ?thesis
    proof (cases "objToNodeMap (freeList p) f")
      case None
      then show ?thesis using wf Some by (simp add: Pool_acquire_take_def same_pool_def)
    next
      case (Some fnode)
      obtain b fl where R: "LinkedList_remove (freeList p) (obj fnode) = (b, fl)"
        by (cases "LinkedList_remove (freeList p) (obj fnode)")
      obtain r ul where A: "LinkedList_add (usedList p) (obj fnode) = (r, ul)"
        by (cases "LinkedList_add (usedList p) (obj fnode)")
      have fl: "wf_list fl" "uniqueId fl = uniqueId (freeList p)"
        using LinkedList_remove_wf [of "freeList p" "obj fnode"]
          LinkedList_remove_uniqueId [of "freeList p" "obj fnode"] wf R
        by (simp_all add: wf_pool_def)
      have ul: "wf_list ul" "uniqueId ul = uniqueId (usedList p)"
        using LinkedList_add_wf [of "usedList p" "obj fnode"]
          LinkedList_add_uniqueId [of "usedList p" "obj fnode"] wf A
        by (simp_all add: wf_pool_def)
      show ?thesis
        using \<open>first (freeList p) = Some f\<close> Some R A fl ul
        by (cases r) (simp_all add: Pool_acquire_take_def Let_def wf_pool_def same_pool_def)
    qed
  qed
qed

lemma registry_extends_refl: "registry_extends w w"
  by (auto simp: registry_extends_def same_pool_refl)

lemma registry_extends_trans:
  "registry_extends w w' \<Longrightarrow> registry_extends w' w'' \<Longrightarrow> registry_extends w w''"
  unfolding registry_extends_def by (meson same_pool_trans)

lemma pool_inv_wf: "pool_inv p w fs us \<Longrightarrow> wf_pool p"
  by (auto simp: pool_inv_def wf_pool_def wf_list_def)

lemma wf_pool_size: "wf_pool p \<Longrightarrow> 0 \<le> Pool_size p"
  using wf_list_count [of "freeList p"] wf_list_count [of "usedList p"]
  by (simp add: wf_pool_def Pool_size_def)

lemma Pool_acquire_any:
  assumes wf: "wf_pool p"
  shows "wf_pool (fst (snd (Pool_acquire p w))) \<and> same_pool p (fst (snd (Pool_acquire p w))) \<and>
   pools (snd (snd (Pool_acquire p w))) = pools w \<and>
   INITIAL_POOL_SIZE (snd (snd (Pool_acquire p w))) = INITIAL_POOL_SIZE w \<and>
   totalPooled w \<le> totalPooled (snd (snd (Pool_acquire p w)))"
proof (cases "first (freeList p) = None")
  case False
  then have "Pool_acquire p w = Pool_acquire_take p w" by (auto simp: Pool_acquire_def)
  then show ?thesis using Pool_acquire_take_any [OF wf, of w] by simp
next
  case True
  let ?k = "Math_round_fifth (Pool_size p) + 1"
  have k: "0 \<le> ?k" using Math_round_fifth_nonneg [OF wf_pool_size [OF wf]] by simp
  obtain r pe we where E: "Pool_expand p w ?k = (r, pe, we)"
    by (cases "Pool_expand p w ?k") auto
  have e: "wf_pool pe" "same_pool p pe" "pools we = pools w"
    "INITIAL_POOL_SIZE we = INITIAL_POOL_SIZE w" "totalPooled we = totalPooled w + ?k"
    using Pool_expand_any [OF wf, of w ?k] unfolding E by simp_all
  show ?thesis
  proof (cases r)
    case (Thrown err)
    then have "Pool_acquire p w = (Thrown err, pe, we)"
      using True E by (simp add: Pool_acquire_def)
    then show ?thesis using e k by simp
  next
    case (Returned u)
    then have "Pool_acquire p w = Pool_acquire_take pe we"
      using True E by (simp add: Pool_acquire_def)
    then show ?thesis
      using Pool_acquire_take_any [OF e(1), of we] e k
      by (auto intro: same_pool_trans)
  qed
qed

lemma Pool_release_any:
  assumes wf: "wf_pool p"
  shows "wf_pool (fst (snd (Pool_release p w x))) \<and> same_pool p (fst (snd (Pool_release p w x))) \<and>
   pools (snd (snd (Pool_release p w x))) = pools w \<and>
   INITIAL_POOL_SIZE (snd (snd (Pool_release p w x))) = INITIAL_POOL_SIZE w \<and>
   totalPooled (snd (snd (Pool_release p w x))) = totalPooled w"
proof -
  obtain r fl where A: "LinkedList_add (freeList p) x = (r, fl)"
    by (cases "LinkedList_add (freeList p) x")
  obtain b ul where R: "LinkedList_remove (usedList p) x = (b, ul)"
    by (cases "LinkedList_remove (usedList p) x")
  have fl: "wf_list fl" "uniqueId fl = uniqueId (freeList p)"
    using LinkedList_add_wf [of "freeList p" x] LinkedList_add_uniqueId [of "freeList p" x] wf A
    by (simp_all add: wf_pool_def)
  have ul: "wf_list ul" "uniqueId ul = uniqueId (usedList p)"
    using LinkedList_remove_wf [of "usedList p" x] LinkedList_remove_uniqueId [of "usedList p" x] wf R
    by (simp_all add: wf_pool_def)
  show ?thesis
    using A R fl ul wf
    by (cases r) (simp_all add: Pool_release_def wf_pool_def same_pool_def)
qed

lemma Pool_init_any:
  "fst (Pool_init t n w) = Returned () \<and>
   wf_pool (fst (snd (Pool_init t n w))) \<and>
   classType (fst (snd (Pool_init t n w))) = t \<and>
   initialSize (fst (snd (Pool_init t n w))) = n \<and>
   Pool_size (fst (snd (Pool_init t n w))) = int (nat n) \<and>
   pools (snd (snd (Pool_init t n w))) = pools w \<and>
   INITIAL_POOL_SIZE (snd (snd (Pool_init t n w))) = INITIAL_POOL_SIZE w \<and>
   totalPooled (snd (snd (Pool_init t n w))) = totalPooled w + n"
proof -
  obtain r p w1 where I: "Pool_init t n w = (r, p, w1)"
    by (cases "Pool_init t n w") auto
  have i: "r = Returned ()" "pool_inv p w1 [nextId w + 2 ..< nextId w + 2 + nat n] []"
    "classType p = t" "initialSize p = n"
    "w1 = new_objects (nat n) t (w\<lparr>nextId := nextId w + 2, totalPooled := totalPooled w + n\<rparr>)"
    using Pool_init_inv [of t n w] unfolding I fst_conv snd_conv by auto
  have s: "Pool_size p = int (nat n)" using Pool_size_inv [OF i(2)] by (simp del: upt_Suc)
  show ?thesis
    unfolding I fst_conv snd_conv
    using i(1,3,4) pool_inv_wf [OF i(2)] s by (simp add: i(5) new_objects_fields)
qed

lemma LinkedList_add_throws:
  "fst (LinkedList_add l x) = Thrown e \<Longrightarrow> e = DuplicateAdd x (uniqueId l) \<or> e = NoLast"
  by (auto simp: LinkedList_add_def LinkedList_append_def split: option.splits if_splits)

lemma Pool_release_throws:
  "fst (Pool_release p w x) = Thrown e \<Longrightarrow>
   e = DuplicateAdd x (uniqueId (freeList p)) \<or> e = NoLast"
proof -
  assume a: "fst (Pool_release p w x) = Thrown e"
  obtain r fl where A: "LinkedList_add (freeList p) x = (r, fl)"
    by (cases "LinkedList_add (freeList p) x")
  have "r = Thrown e"
    using a A by (cases r) (simp_all add: Pool_release_def split: prod.splits)
  then show ?thesis using LinkedList_add_throws [of "freeList p" x e] A by simp
qed

lemma expand_loop_pools: "pools (snd (snd (expand_loop k p w))) = pools w"
proof (induction k arbitrary: p w)
  case 0
  show ?case by simp
next
  case (Suc k)
  show ?case
    by (cases "LinkedList_add (freeList p) (nextId w)";
        cases "fst (LinkedList_add (freeList p) (nextId w))")
       (simp_all add: new_object_def Suc.IH)
qed

lemma Pool_expand_pools: "pools (snd (snd (Pool_expand p w n))) = pools w"
  by (simp add: Pool_expand_def expand_loop_pools)

lemma Pool_acquire_take_pools: "pools (snd (snd (Pool_acquire_take p w))) = pools w"
  by (simp add: Pool_acquire_take_def Let_def split: option.split prod.split outcome.split)

lemma Pool_acquire_pools: "pools (snd (snd (Pool_acquire p w))) = pools w"
proof (cases "Pool_expand p w (Math_round_fifth (Pool_size p) + 1)")
  case (fields r pe we)
  have "pools we = pools w"
    using Pool_expand_pools [of p w "Math_round_fifth (Pool_size p) + 1"] fields by simp
  then show ?thesis
    using fields by (cases r) (simp_all add: Pool_acquire_def Pool_acquire_take_pools)
qed

lemma Pool_release_pools: "pools (snd (snd (Pool_release p w x))) = pools w"
  by (simp add: Pool_release_def Let_def split: prod.split outcome.split)

lemma Pool_static_acquire_registered:
  "pools w t = Some p \<Longrightarrow>
   Pool_static_acquire w t =
     (case Pool_acquire p w of (r, p', w2) \<Rightarrow> (r, w2\<lparr>pools := (pools w2)(t \<mapsto> p')\<rparr>))"
  by (simp add: Pool_static_acquire_def)

lemma Pool_static_acquire_unseen:
  assumes "pools w t = None"
  shows "Pool_static_acquire w t =
     (case Pool_acquire (fst (snd (Pool_init t (INITIAL_POOL_SIZE w) w)))
             ((snd (snd (Pool_init t (INITIAL_POOL_SIZE w) w)))
                \<lparr>pools := (pools w)(t \<mapsto> fst (snd (Pool_init t (INITIAL_POOL_SIZE w) w)))\<rparr>) of
        (r, p', w2) \<Rightarrow> (r, w2\<lparr>pools := (pools w2)(t \<mapsto> p')\<rparr>))"
proof -
  obtain r p0 w0 where I: "Pool_init t (INITIAL_POOL_SIZE w) w = (r, p0, w0)"
    by (cases "Pool_init t (INITIAL_POOL_SIZE w) w") auto
  have "r = Returned ()" "pools w0 = pools w"
    using Pool_init_any [of t "INITIAL_POOL_SIZE w" w] unfolding I by simp_all
  then show ?thesis using assms by (simp add: Pool_static_acquire_def I)
qed

lemma Pool_static_acquire_dom:
  "dom (pools (snd (Pool_static_acquire w t))) = insert t (dom (pools w))"
proof (cases "pools w t")
  case None
  let ?p0 = "fst (snd (Pool_init t (INITIAL_POOL_SIZE w) w))"
  let ?w0 = "(snd (snd (Pool_init t (INITIAL_POOL_SIZE w) w)))\<lparr>pools := (pools w)(t \<mapsto> ?p0)\<rparr>"
  obtain r p' w2 where A: "Pool_acquire ?p0 ?w0 = (r, p', w2)"
    by (cases "Pool_acquire ?p0 ?w0") auto
  have "pools w2 = (pools w)(t \<mapsto> ?p0)"
    using Pool_acquire_pools [of ?p0 ?w0] A by simp
  then show ?thesis
    unfolding Pool_static_acquire_unseen [OF None] A by simp
next
  case (Some p)
  obtain r p' w2 where A: "Pool_acquire p w = (r, p', w2)"
    by (cases "Pool_acquire p w") auto
  have "pools w2 = pools w" using Pool_acquire_pools [of p w] A by simp
  then show ?thesis
    unfolding Pool_static_acquire_registered [OF Some] A using Some by auto
qed

lemma Pool_static_release_dom:
  "dom (pools (snd (Pool_static_release w x))) = dom (pools w)"
proof (cases "pools w (Class_fullName w x)")
  case None
  then show ?thesis by (simp add: Pool_static_release_def)
next
  case (Some p)
  obtain r p' w1 where R: "Pool_release p w x = (r, p', w1)"
    by (cases "Pool_release p w x") auto
  have "pools w1 = pools w" using Pool_release_pools [of p w x] R by simp
  then show ?thesis using Some R by (auto simp: Pool_static_release_def)
qed

lemma step_dom:
  "dom (pools (step w a)) = dom (pools w) \<union> (case a of Acquire t \<Rightarrow> {t} | _ \<Rightarrow> {})"
proof (cases a)
  case (Acquire t)
  then show ?thesis by (simp add: Pool_static_acquire_dom)
next
  case (Release x)
  then show ?thesis by (simp add: Pool_static_release_dom)
next
  case (Expand t n)
  show ?thesis
  proof (cases "pools w t")
    case None
    then show ?thesis using Expand by simp
  next
    case (Some p)
    obtain r p' w1 where E: "Pool_expand p w (int n) = (r, p', w1)"
      by (cases "Pool_expand p w (int n)") auto
    have "pools w1 = pools w" using Pool_expand_pools [of p w "int n"] E by simp
    then show ?thesis using Expand Some E by auto
  qed
next
  case (Construct t)
  then show ?thesis by (simp add: new_object_def)
qed

lemma run_dom: "dom (pools (run w ops)) = dom (pools w) \<union> {t. Acquire t \<in> set ops}"
proof (induction ops arbitrary: w)
  case Nil
  show ?case by (simp add: run_def)
next
  case (Cons a ops)
  have "run w (a # ops) = run (step w a) ops" by (simp add: run_def)
  then show ?case
    using Cons.IH [of "step w a"] step_dom [of w a] by (cases a) auto
qed

text \<open>What one call on a registered pool may do to the registry, written back under its key.\<close>

lemma write_back_any:
  assumes wf: "wf_world w" and reg: "pools w t = Some p"
    and p': "wf_pool p'" "same_pool p p'"
    and w1: "pools w1 = pools w" "INITIAL_POOL_SIZE w1 = INITIAL_POOL_SIZE w"
      "totalPooled w \<le> totalPooled w1"
  shows "wf_world (w1\<lparr>pools := (pools w1)(t \<mapsto> p')\<rparr>) \<and>
         registry_extends w (w1\<lparr>pools := (pools w1)(t \<mapsto> p')\<rparr>) \<and>
         totalPooled w \<le> totalPooled (w1\<lparr>pools := (pools w1)(t \<mapsto> p')\<rparr>)"
  using assms
  by (auto simp: wf_world_def registry_extends_def same_pool_refl)

lemma Pool_static_acquire_any:
  assumes wf: "wf_world w"
  shows "wf_world (snd (Pool_static_acquire w t)) \<and>
         registry_extends w (snd (Pool_static_acquire w t)) \<and>
         totalPooled w \<le> totalPooled (snd (Pool_static_acquire w t))"
proof (cases "pools w t")
  case (Some p)
  have wp: "wf_pool p" using wf Some by (auto simp: wf_world_def)
  obtain r p' w2 where A: "Pool_acquire p w = (r, p', w2)"
    by (cases "Pool_acquire p w") auto
  have a: "wf_pool p'" "same_pool p p'" "pools w2 = pools w"
    "INITIAL_POOL_SIZE w2 = INITIAL_POOL_SIZE w" "totalPooled w \<le> totalPooled w2"
    using Pool_acquire_any [OF wp, of w] unfolding A by simp_all
  show ?thesis
    unfolding Pool_static_acquire_registered [OF Some] A
    using write_back_any [OF wf Some a] by simp
next
  case None
  let ?n = "INITIAL_POOL_SIZE w"
  obtain r0 p0 w0 where I: "Pool_init t ?n w = (r0, p0, w0)"
    by (cases "Pool_init t ?n w") auto
  have i: "wf_pool p0" "pools w0 = pools w" "INITIAL_POOL_SIZE w0 = ?n"
    "totalPooled w0 = totalPooled w + ?n"
    using Pool_init_any [of t ?n w] unfolding I by simp_all
  have n0: "0 \<le> ?n" using wf by (simp add: wf_world_def)
  let ?w0 = "w0\<lparr>pools := (pools w)(t \<mapsto> p0)\<rparr>"
  have wf0: "wf_world ?w0" using wf i(1,3) by (auto simp: wf_world_def)
  have reg: "pools ?w0 t = Some p0" by simp
  have ext0: "registry_extends w ?w0"
    using None by (auto simp: registry_extends_def same_pool_refl)
  obtain r p' w2 where A: "Pool_acquire p0 ?w0 = (r, p', w2)"
    by (cases "Pool_acquire p0 ?w0") auto
  have a: "wf_pool p'" "same_pool p0 p'" "pools w2 = pools ?w0"
    "INITIAL_POOL_SIZE w2 = INITIAL_POOL_SIZE ?w0" "totalPooled ?w0 \<le> totalPooled w2"
    using Pool_acquire_any [OF i(1), of ?w0] unfolding A by simp_all
  have b: "wf_world (w2\<lparr>pools := (pools w2)(t \<mapsto> p')\<rparr>)"
    "registry_extends ?w0 (w2\<lparr>pools := (pools w2)(t \<mapsto> p')\<rparr>)"
    "totalPooled ?w0 \<le> totalPooled (w2\<lparr>pools := (pools w2)(t \<mapsto> p')\<rparr>)"
    using write_back_any [OF wf0 reg a] by simp_all
  have "totalPooled w \<le> totalPooled (w2\<lparr>pools := (pools w2)(t \<mapsto> p')\<rparr>)"
    using b(3) i(4) n0 by simp
  then show ?thesis
    using Pool_static_acquire_unseen [OF None] b(1) registry_extends_trans [OF ext0 b(2)]
    unfolding I fst_conv snd_conv A by simp
qed

lemma Pool_static_release_any:
  assumes wf: "wf_world w"
  shows "wf_world (snd (Pool_static_release w x)) \<and>
         registry_extends w (snd (Pool_static_release w x)) \<and>
         totalPooled (snd (Pool_static_release w x)) = totalPooled w"
proof (cases "pools w (Class_fullName w x)")
  case None
  then show ?thesis using wf by (simp add: Pool_static_release_def registry_extends_refl)
next
  case (Some p)
  have wp: "wf_pool p" using wf Some by (auto simp: wf_world_def)
  obtain r p' w1 where R: "Pool_release p w x = (r, p', w1)"
    by (cases "Pool_release p w x") auto
  have a: "wf_pool p'" "same_pool p p'" "pools w1 = pools w"
    "INITIAL_POOL_SIZE w1 = INITIAL_POOL_SIZE w" "totalPooled w1 = totalPooled w"
    using Pool_release_any [OF wp, of w x] unfolding R by simp_all
  have "totalPooled w \<le> totalPooled w1" using a(5) by simp
  then show ?thesis
    using write_back_any [OF wf Some a(1-4)] a(5) Some R
    by (simp add: Pool_static_release_def)
qed

lemma step_any:
  assumes wf: "wf_world w"
  shows "wf_world (step w a) \<and> registry_extends w (step w a) \<and>
         totalPooled w \<le> totalPooled (step w a)"
proof (cases a)
  case (Acquire t)
  then show ?thesis using Pool_static_acquire_any [OF wf, of t] by simp
next
  case (Release x)
  then show ?thesis using Pool_static_release_any [OF wf, of x] by simp
next
  case (Expand t n)
  show ?thesis
  proof (cases "pools w t")
    case None
    then show ?thesis using Expand wf by (simp add: registry_extends_refl)
  next
    case (Some p)
    have wp: "wf_pool p" using wf Some by (auto simp: wf_world_def)
    obtain r p' w1 where E: "Pool_expand p w (int n) = (r, p', w1)"
      by (cases "Pool_expand p w (int n)") auto
    have a: "wf_pool p'" "same_pool p p'" "pools w1 = pools w"
      "INITIAL_POOL_SIZE w1 = INITIAL_POOL_SIZE w" "totalPooled w \<le> totalPooled w1"
      using Pool_expand_any [OF wp, of w "int n"] unfolding E by simp_all
    show ?thesis
      using write_back_any [OF wf Some a] Expand Some E by simp
  qed
next
  case (Construct t)
  then show ?thesis
    using wf by (simp add: new_object_def wf_world_def registry_extends_def same_pool_refl)
qed

lemma run_any:
  "wf_world w \<Longrightarrow>
   wf_world (run w ops) \<and> registry_extends w (run w ops) \<and>
   totalPooled w \<le> totalPooled (run w ops)"
proof (induction ops arbitrary: w)
  case Nil
  then show ?case by (simp add: run_def registry_extends_refl)
next
  case (Cons a ops)
  have r: "run w (a # ops) = run (step w a) ops" by (simp add: run_def)
  have s: "wf_world (step w a)" "registry_extends w (step w a)"
    "totalPooled w \<le> totalPooled (step w a)"
    using step_any [OF Cons.prems, of a] by simp_all
  show ?case
    unfolding r using Cons.IH [OF s(1)] s(2,3)
    by (auto intro: registry_extends_trans)
qed

lemma wf_world0: "wf_world world0"
  by (simp add: wf_world_def world0_def)

lemma nat_1_Suc: "nat 1 = Suc 0"
  by simp

lemma static_acquire_Point:
  "fst (Pool_static_acquire world0 ''Point'') = Returned 2 \<and>
   Class_fullName (snd (Pool_static_acquire world0 ''Point'')) 2 = ''Point'' \<and>
   totalPooled (snd (Pool_static_acquire world0 ''Point'')) = 1"
  by (simp add: Pool_static_acquire_def Pool_init_def new_LinkedList_def LinkedList_init_def
      Pool_expand_def world0_def new_object_def LinkedList_add_def LinkedList_getNode_def
      LinkedList_addNode_def LinkedList_append_def set_nextLinked_def set_prevLinked_def
      set_free_def Pool_acquire_def Pool_acquire_take_def LinkedList_remove_def Let_def
      nat_1_Suc)

lemma construct_Point:
  "Class_fullName (snd (new_object ''Point'' world0)) 0 = ''Point'' \<and>
   pools (snd (new_object ''Point'' world0)) = Map.empty"
  by (simp add: new_object_def world0_def)

lemmas list_eval =
  LinkedList_init_def LinkedList_add_def LinkedList_getNode_def
  LinkedList_addNode_def LinkedList_append_def set_nextLinked_def set_prevLinked_def
  set_free_def LinkedList_remove_def LinkedList_moveUp_def LinkedList_moveDown_def Let_def

lemma is_dll_list123: "is_dll list123 [1, 2, 3]"
proof -
  let ?l1 = "snd (LinkedList_add (LinkedList_init 0) 1)"
  let ?l2 = "snd (LinkedList_add ?l1 2)"
  have 1: "is_dll ?l1 [1]" using LinkedList_add_dll [OF is_dll_init, of 1 0] by simp
  have 2: "is_dll ?l2 [1, 2]" using LinkedList_add_dll [OF 1, of 2] by simp
  show ?thesis unfolding list123_def using LinkedList_add_dll [OF 2, of 3] by simp
qed

lemma list123_nodes:
  "first list123 = Some 1 \<and> last_l list123 = Some 3 \<and>
   objToNodeMap list123 1 = Some \<lparr>obj = 1, nextLinked = Some 2, prevLinked = None, free = False\<rparr> \<and>
   objToNodeMap list123 2 = Some \<lparr>obj = 2, nextLinked = Some 3, prevLinked = Some 1, free = False\<rparr> \<and>
   objToNodeMap list123 3 = Some \<lparr>obj = 3, nextLinked = None, prevLinked = Some 2, free = False\<rparr>"
  by (simp add: list123_def list_eval)

lemma moveUp_list123:
  "fst (LinkedList_moveUp list123 2) = Returned () \<and>
   first (snd (LinkedList_moveUp list123 2)) = Some 2 \<and>
   last_l (snd (LinkedList_moveUp list123 2)) = Some 3 \<and>
   objToNodeMap (snd (LinkedList_moveUp list123 2)) 2 =
     Some \<lparr>obj = 2, nextLinked = Some 1, prevLinked = None, free = False\<rparr> \<and>
   objToNodeMap (snd (LinkedList_moveUp list123 2)) 1 =
     Some \<lparr>obj = 1, nextLinked = Some 3, prevLinked = Some 2, free = False\<rparr> \<and>
   objToNodeMap (snd (LinkedList_moveUp list123 2)) 3 =
     Some \<lparr>obj = 3, nextLinked = None, prevLinked = Some 2, free = False\<rparr>"
  using list123_nodes
  by (simp add: LinkedList_moveUp_def LinkedList_getNode_def set_nextLinked_def
      set_prevLinked_def Let_def)

lemma moveUp_list123_first: "LinkedList_moveUp list123 1 = (Returned (), list123)"
  using list123_nodes by (simp add: LinkedList_moveUp_def LinkedList_getNode_def)

lemma moveDown_list123_last: "LinkedList_moveDown list123 3 = (Returned (), list123)"
  using list123_nodes by (simp add: LinkedList_moveDown_def LinkedList_getNode_def)

lemma moveDown_list123: "LinkedList_moveDown list123 1 = LinkedList_moveUp list123 2"
proof -
  obtain r l' where M: "LinkedList_moveUp list123 2 = (r, l')"
    by (cases "LinkedList_moveUp list123 2")
  have "r = Returned ()" "last_l l' = Some 3" using moveUp_list123 M by simp_all
  then show ?thesis
    using list123_nodes M by (simp add: LinkedList_moveDown_def LinkedList_getNode_def)
qed

lemma LinkedList_moveUp_successor:
  assumes dll: "is_dll l (ys @ b # c # d # zs)"
  shows "fst (LinkedList_moveUp l c) = Returned () \<and>
         objToNodeMap (snd (LinkedList_moveUp l c)) d = objToNodeMap l d \<and>
         map_option prevLinked (objToNodeMap l d) = Some (Some c) \<and>
         \<not> is_dll (snd (LinkedList_moveUp l c)) (ys @ c # b # d # zs)"
proof -
  let ?m = "objToNodeMap l"
  have dist: "distinct (ys @ b # c # d # zs)" using dll by (simp add: is_dll_def)
  have ch: "chain ?m (last_or None ys) (b # c # d # zs) None"
    using dll by (simp add: is_dll_def chain_append)
  from ch obtain bn where bn: "?m b = Some bn" "prevLinked bn = last_or None ys"
    and ch1: "chain ?m (Some b) (c # d # zs) None"
    by (auto split: option.splits)
  from ch1 obtain cn where cn: "?m c = Some cn" "prevLinked cn = Some b" "nextLinked cn = Some d"
    and ch2: "chain ?m (Some c) (d # zs) None"
    by (auto split: option.splits)
  from ch2 obtain dn where dn: "?m d = Some dn" "prevLinked dn = Some c"
    by (auto split: option.splits)
  have ne: "d \<noteq> b" "d \<noteq> c" "b \<noteq> c" "d \<notin> set ys" using dist by auto
  have na: "\<And>a. last_or None ys = Some a \<Longrightarrow> a \<noteq> d"
    using ne(4) by (auto dest: last_or_in)
  obtain r l' where M: "LinkedList_moveUp l c = (r, l')"
    by (cases "LinkedList_moveUp l c")
  have r: "r = Returned ()"
    using M bn cn by (simp add: LinkedList_moveUp_def LinkedList_getNode_def Let_def)
  have md: "objToNodeMap l' d = ?m d"
    using M bn cn ne na
    by (auto simp: LinkedList_moveUp_def LinkedList_getNode_def Let_def
        set_nextLinked_apply set_prevLinked_apply split: option.splits)
  have "\<not> chain (objToNodeMap l') None (ys @ c # b # d # zs) None"
    using md dn ne(3) by (auto simp: chain_append split: option.splits)
  then have "\<not> is_dll l' (ys @ c # b # d # zs)" by (simp add: is_dll_def)
  then show ?thesis using r md dn by (simp add: M)
qed

lemma LinkedList_moveUp_first:
  "is_dll l (x # xs) \<Longrightarrow> LinkedList_moveUp l x = (Returned (), l)"
  by (auto simp: is_dll_def LinkedList_moveUp_def LinkedList_getNode_def split: option.splits)

lemma LinkedList_moveDown_last:
  assumes "is_dll l (xs @ [x])"
  shows "LinkedList_moveDown l x = (Returned (), l)"
proof -
  have "chain (objToNodeMap l) (last_or None xs) [x] None"
    using assms by (simp add: is_dll_def chain_append)
  then show ?thesis
    by (auto simp: LinkedList_moveDown_def LinkedList_getNode_def split: option.splits)
qed

lemma LinkedList_moveUp_last:
  assumes dll: "is_dll l (ys @ [b, c])"
  shows "fst (LinkedList_moveUp l c) = Returned () \<and>
         is_dll (snd (LinkedList_moveUp l c)) (ys @ [c, b])"
proof -
  let ?m = "objToNodeMap l" and ?a = "last_or None ys"
  have dist: "distinct ys" "b \<notin> set ys" "c \<notin> set ys" "b \<noteq> c"
    using dll by (auto simp: is_dll_def)
  have chy: "chain ?m None ys (Some b)" and ch: "chain ?m ?a [b, c] None"
    using dll by (simp_all add: is_dll_def chain_append)
  from ch obtain bn cn where bn: "?m b = Some bn" "obj bn = b" "free bn = False"
      "prevLinked bn = ?a" "nextLinked bn = Some c"
    and cn: "?m c = Some cn" "obj cn = c" "free cn = False"
      "prevLinked cn = Some b" "nextLinked cn = None"
    by (auto split: option.splits)
  have la: "last_l l = Some c" using dll by (simp add: is_dll_def last_or_append)
  have fi: "first l = head_or (Some b) ys" using dll by (simp add: is_dll_def head_or_append)
  let ?m1 = "case ?a of None \<Rightarrow> ?m | Some ar \<Rightarrow> set_nextLinked ar (Some c) ?m"
  let ?m2 = "set_nextLinked c (Some b) ?m1"
  let ?m3 = "set_prevLinked c ?a ?m2"
  let ?m4 = "set_nextLinked b None ?m3"
  let ?m5 = "set_prevLinked b (Some c) ?m4"
  let ?fi = "if first l = Some b then Some c else first l"
  let ?l1 = "l\<lparr>first := ?fi, last_l := Some b, objToNodeMap := ?m5\<rparr>"
  have m1_other: "\<And>k. k \<notin> set ys \<Longrightarrow> ?m1 k = ?m k"
    by (auto simp: set_nextLinked_apply dest: last_or_in split: option.splits)
  have m2b: "?m2 b = Some bn"
    using bn(1) dist m1_other [of b] by (simp add: set_nextLinked_apply)
  have mv: "LinkedList_moveUp l c = (Returned (), ?l1)"
    using bn cn la m2b
    by (simp add: LinkedList_moveUp_def LinkedList_getNode_def Let_def cong: option.case_cong)
  have c1: "chain ?m1 None ys (Some c)" by (rule chain_relink_end [OF chy dist(1)])
  have "chain ?m5 None ys (Some c) = chain ?m1 None ys (Some c)"
    using dist by (intro chain_frame) (auto simp: set_nextLinked_apply set_prevLinked_apply)
  then have c5: "chain ?m5 None ys (Some c)" using c1 by simp
  have m5c: "?m5 c = Some (cn\<lparr>nextLinked := Some b, prevLinked := ?a\<rparr>)"
    using cn(1) dist m1_other [of c] by (simp add: set_nextLinked_apply set_prevLinked_apply)
  have m5b: "?m5 b = Some (bn\<lparr>nextLinked := None, prevLinked := Some c\<rparr>)"
    using bn(1) dist m1_other [of b] by (simp add: set_nextLinked_apply set_prevLinked_apply)
  have c6: "chain ?m5 ?a [c, b] None"
    using m5c m5b bn(2,3) cn(2,3) by simp
  have cc: "chain ?m5 None (ys @ [c, b]) None" using c5 c6 by (simp add: chain_append)
  have lv: "live ?m5 = live ?m"
    by (simp add: live_set_nextLinked live_set_prevLinked split: option.split)
  have hs: "\<And>k. live ?m5 k = (k \<in> set (ys @ [c, b]))"
    using dll unfolding lv by (auto simp: is_dll_def has_live)
  have f1: "?fi = head_or None (ys @ [c, b])"
    using fi dist by (cases ys) (auto simp: head_or_append)
  have "is_dll ?l1 (ys @ [c, b])"
    unfolding is_dll_def has_live using cc hs f1 dist dll
    by (simp add: last_or_append is_dll_def)
  then show ?thesis by (simp add: mv)
qed

lemma Pool_release_inv:
  assumes inv: "pool_inv p w fs us" and mem: "x \<in> set us"
  shows "fst (Pool_release p w x) = Returned () \<and>
         pool_inv (fst (snd (Pool_release p w x))) (snd (snd (Pool_release p w x)))
           (fs @ [x]) (remove1 x us) \<and>
         same_pool p (fst (snd (Pool_release p w x))) \<and>
         destroyed (snd (snd (Pool_release p w x))) x = True"
proof -
  have f: "is_dll (freeList p) fs" and u: "is_dll (usedList p) us"
    and dj: "\<And>y. y \<in> set fs \<Longrightarrow> y \<notin> set us"
    and fr: "\<And>y. y \<in> set fs \<union> set us \<Longrightarrow> y < nextId w"
    using inv by (auto simp: pool_inv_def list_all_iff)
  have nin: "x \<notin> set fs" using dj mem by auto
  have du: "distinct us" using u by (simp add: is_dll_def)
  obtain r p1 w1 where R: "Pool_release p w x = (r, p1, w1)"
    by (cases "Pool_release p w x") auto
  have a: "r = Returned ()" "is_dll (freeList p1) (fs @ [x])" "is_dll (usedList p1) (remove1 x us)"
    "uniqueId (freeList p1) = uniqueId (freeList p)" "uniqueId (usedList p1) = uniqueId (usedList p)"
    "p1 = p\<lparr>freeList := freeList p1, usedList := usedList p1\<rparr>"
    "w1 = w\<lparr>destroyed := (destroyed w)(x := True)\<rparr>"
    using Pool_release_dll [OF f u nin, of w] unfolding R fst_conv snd_conv by auto
  have c: "classType p1 = classType p" "initialSize p1 = initialSize p"
    by (subst a(6), simp)+
  have "pool_inv p1 w1 (fs @ [x]) (remove1 x us)"
    unfolding pool_inv_def list_all_iff
    using a(2,3,7) dj fr mem du by (auto simp: set_remove1_eq)
  then show ?thesis using a(1,4,5,7) c by (simp add: R same_pool_def)
qed

lemma Math_round_fifth_nearest:
  "10 * Math_round_fifth n \<le> 2 * n + 5 \<and> 2 * n + 5 < 10 * (Math_round_fifth n + 1)"
proof -
  define m where "m = 2 * n + 5"
  define q where "q = m div 10"
  define t where "t = m mod 10"
  have e: "m = 10 * q + t" unfolding q_def t_def by simp
  have b: "0 \<le> t" "t < 10" unfolding t_def by simp_all
  have "10 * q \<le> m" using e b(1) by simp
  moreover have "m < 10 * (q + 1)" using e b(2) by simp
  ultimately show ?thesis unfolding Math_round_fifth_def q_def m_def by simp
qed

lemma Math_round_fifth_unique:
  assumes "10 * r \<le> 2 * n + 5" and "2 * n + 5 < 10 * (r + 1)"
  shows "Math_round_fifth n = r"
proof -
  define q where "q = Math_round_fifth n"
  define m where "m = 2 * n + 5"
  have a: "10 * q \<le> m" "m < 10 * (q + 1)"
    using Math_round_fifth_nearest [of n] unfolding q_def m_def by simp_all
  have c: "10 * r \<le> m" "m < 10 * (r + 1)" using assms unfolding m_def by simp_all
  have "q \<le> r" using a(1) c(2) by simp
  moreover have "r \<le> q" using a(2) c(1) by simp
  ultimately show ?thesis unfolding q_def by simp
qed

lemma scenario3_fresh_inv:
  "pool_inv (fst scenario3_fresh) (snd scenario3_fresh) [2, 3, 4] [] \<and>
   nextId (snd scenario3_fresh) = 5 \<and> totalPooled (snd scenario3_fresh) = 3"
proof -
  have n0: "nextId world0 = 0" "totalPooled world0 = 0" by (simp_all add: world0_def)
  have u: "[nextId world0 + 2 ..< nextId world0 + 2 + nat 3] = [2, 3, 4]"
    by (simp add: n0 upt_rec)
  obtain r p w where I: "Pool_init ''Point'' 3 world0 = (r, p, w)"
    by (cases "Pool_init ''Point'' 3 world0") auto
  have f: "pool_inv p w [2, 3, 4] []"
    "w = new_objects (nat 3) ''Point'' (world0\<lparr>nextId := nextId world0 + 2, totalPooled := totalPooled world0 + 3\<rparr>)"
    using Pool_init_inv [of "''Point''" 3 world0] unfolding I u fst_conv snd_conv
    by blast+
  have "nextId w = 5" "totalPooled w = 3"
    unfolding f(2) by (simp_all add: new_objects_fields n0)
  then show ?thesis using f(1) by (simp add: scenario3_fresh_def I)
qed

lemma acquire_nonempty_step:
  assumes "pool_inv p w (y # fs) us"
  shows "fst (Pool_acquire p w) = Returned y \<and>
         pool_inv (fst (snd (Pool_acquire p w))) (snd (snd (Pool_acquire p w))) fs (us @ [y]) \<and>
         nextId (snd (snd (Pool_acquire p w))) = nextId w \<and>
         totalPooled (snd (snd (Pool_acquire p w))) = totalPooled w"
proof -
  obtain r p1 w1 where A: "Pool_acquire p w = (r, p1, w1)"
    by (cases "Pool_acquire p w") auto
  have a: "r = Returned y" "pool_inv p1 w1 fs (us @ [y])"
    "w1 = w\<lparr>destroyed := (destroyed w)(y := False)\<rparr>"
    using Pool_acquire_nonempty [OF assms] unfolding A fst_conv snd_conv by blast+
  show ?thesis unfolding A fst_conv snd_conv using a(1,2) by (simp add: a(3))
qed

lemma scenario3_all_inv:
  "pool_inv (fst scenario3_all) (snd scenario3_all) [] [2, 3, 4] \<and>
   nextId (snd scenario3_all) = 5 \<and> totalPooled (snd scenario3_all) = 3"
proof -
  have a: "pool_inv (fst scenario3_fresh) (snd scenario3_fresh) [2, 3, 4] []"
    "nextId (snd scenario3_fresh) = 5" "totalPooled (snd scenario3_fresh) = 3"
    using scenario3_fresh_inv by simp_all
  have b: "pool_inv (fst scenario3_one) (snd scenario3_one) [3, 4] ([] @ [2])"
    "nextId (snd scenario3_one) = 5" "totalPooled (snd scenario3_one) = 3"
    using acquire_nonempty_step [OF a(1)] a(2,3) unfolding scenario3_one_def by simp_all
  have b1: "pool_inv (fst scenario3_one) (snd scenario3_one) [3, 4] [2]" using b(1) by simp
  have c: "pool_inv (fst scenario3_two) (snd scenario3_two) [4] ([2] @ [3])"
    "nextId (snd scenario3_two) = 5" "totalPooled (snd scenario3_two) = 3"
    using acquire_nonempty_step [OF b1] b(2,3) unfolding scenario3_two_def by simp_all
  have c1: "pool_inv (fst scenario3_two) (snd scenario3_two) [4] [2, 3]" using c(1) by simp
  have d: "pool_inv (fst scenario3_all) (snd scenario3_all) [] ([2, 3] @ [4])"
    "nextId (snd scenario3_all) = 5" "totalPooled (snd scenario3_all) = 3"
    using acquire_nonempty_step [OF c1] c(2,3) unfolding scenario3_all_def by simp_all
  show ?thesis using d by simp
qed

section \<open>The claims\<close>

text \<open>
  C1. On a well-formed pool whose free list is empty, let \<open>k\<close> be \<open>round(size()/5) + 1\<close>,
  that is the integer with \<open>k - 1 \<le> size()/5 + 1/2 < k\<close>. Then \<open>k\<close> is the argument the
  code computes and it is at least 1; \<open>expand(k)\<close> returns and leaves a free list of \<open>k\<close>
  new objects whose head is the first of them; \<open>acquire\<close> is that one \<open>expand(k)\<close>
  followed by the statements after the check; it returns the head object, which is then
  off the free list and the last of the used list, with \<open>destroyed\<close> false; \<open>totalPooled\<close>
  has grown by \<open>k\<close> and \<open>k\<close> objects were constructed.
\<close>

theorem Pool_acquire_expands_once:
  assumes inv: "pool_inv p w [] us"
    and lo: "10 * (k - 1) \<le> 2 * Pool_size p + 5" and hi: "2 * Pool_size p + 5 < 10 * k"
  shows "Math_round_fifth (Pool_size p) + 1 = k \<and> 1 \<le> k \<and>
         fst (Pool_expand p w k) = Returned () \<and>
         first (freeList (fst (snd (Pool_expand p w k)))) = Some (nextId w) \<and>
         is_dll (freeList (fst (snd (Pool_expand p w k))))
           (nextId w # [Suc (nextId w) ..< nextId w + nat k]) \<and>
         Pool_acquire p w =
           Pool_acquire_take (fst (snd (Pool_expand p w k))) (snd (snd (Pool_expand p w k))) \<and>
         fst (Pool_acquire p w) = Returned (nextId w) \<and>
         is_dll (freeList (fst (snd (Pool_acquire p w)))) [Suc (nextId w) ..< nextId w + nat k] \<and>
         is_dll (usedList (fst (snd (Pool_acquire p w)))) (us @ [nextId w]) \<and>
         returnObj (fst (snd (Pool_acquire p w))) = Some (nextId w) \<and>
         destroyed (snd (snd (Pool_acquire p w))) (nextId w) = False \<and>
         totalPooled (snd (snd (Pool_acquire p w))) = totalPooled w + k \<and>
         nextId (snd (snd (Pool_acquire p w))) = nextId w + nat k"
proof -
  have "2 * Pool_size p + 5 < 10 * (k - 1 + 1)" using hi by simp
  then have "Math_round_fifth (Pool_size p) = k - 1"
    using Math_round_fifth_unique [OF lo] by simp
  then have k: "k = Math_round_fifth (Pool_size p) + 1" by simp
  obtain re pe we where E: "Pool_expand p w k = (re, pe, we)"
    by (cases "Pool_expand p w k") auto
  let ?fs = "nextId w # [Suc (nextId w) ..< nextId w + nat k]"
  have e: "1 \<le> k" "re = Returned ()" "pool_inv pe we ?fs us"
    "we = new_objects (nat k) (classType p) (w\<lparr>totalPooled := totalPooled w + k\<rparr>)"
    "Pool_acquire p w = Pool_acquire_take pe we"
    using Pool_acquire_empty [OF inv k] unfolding E fst_conv snd_conv by auto
  have f: "is_dll (freeList pe) ?fs" and u: "is_dll (usedList pe) us"
    and nin: "nextId w \<notin> set us"
    using e(3) by (simp_all add: pool_inv_def)
  have fi: "first (freeList pe) = Some (nextId w)" using f by (simp add: is_dll_def)
  have tp: "totalPooled we = totalPooled w + k" "nextId we = nextId w + nat k"
    by (simp_all add: e(4) new_objects_fields)
  obtain r p1 w1 where T: "Pool_acquire_take pe we = (r, p1, w1)"
    by (cases "Pool_acquire_take pe we") auto
  have t: "r = Returned (nextId w)" "is_dll (freeList p1) [Suc (nextId w) ..< nextId w + nat k]"
    "is_dll (usedList p1) (us @ [nextId w])"
    "p1 = pe\<lparr>freeList := freeList p1, usedList := usedList p1, returnObj := Some (nextId w)\<rparr>"
    "w1 = we\<lparr>destroyed := (destroyed we)(nextId w := False)\<rparr>"
    using Pool_acquire_take_dll [OF f u nin, of we] unfolding T fst_conv snd_conv by auto
  have ro: "returnObj p1 = Some (nextId w)" by (subst t(4)) simp
  have w1: "destroyed w1 (nextId w) = False" "totalPooled w1 = totalPooled w + k"
    "nextId w1 = nextId w + nat k"
    unfolding t(5) using tp by simp_all
  show ?thesis
    unfolding E e(5) T fst_conv snd_conv
    using k e(1,2) fi f t(1-3) ro w1 by simp
qed

theorem Pool_acquire_expands_once_witness:
  "Pool_size (fst scenario3_all) = 3 \<and> Math_round_fifth 3 + 1 = 2 \<and>
   fst (Pool_expand (fst scenario3_all) (snd scenario3_all) 2) = Returned () \<and>
   first (freeList (fst (snd (Pool_expand (fst scenario3_all) (snd scenario3_all) 2)))) = Some 5 \<and>
   is_dll (freeList (fst (snd (Pool_expand (fst scenario3_all) (snd scenario3_all) 2)))) [5, 6] \<and>
   fst (Pool_acquire (fst scenario3_all) (snd scenario3_all)) = Returned 5 \<and>
   is_dll (freeList (fst (snd (Pool_acquire (fst scenario3_all) (snd scenario3_all))))) [6] \<and>
   is_dll (usedList (fst (snd (Pool_acquire (fst scenario3_all) (snd scenario3_all)))))
     [2, 3, 4, 5] \<and>
   destroyed (snd (snd (Pool_acquire (fst scenario3_all) (snd scenario3_all)))) 5 = False \<and>
   totalPooled (snd (snd (Pool_acquire (fst scenario3_all) (snd scenario3_all)))) = 5 \<and>
   nextId (snd (snd (Pool_acquire (fst scenario3_all) (snd scenario3_all)))) = 7 \<and>
   fst (Pool_acquire (fst scenario_A) (snd scenario_A)) = Returned 3 \<and>
   totalPooled (snd scenario_B) = 2"
proof -
  have i: "pool_inv (fst scenario3_all) (snd scenario3_all) [] [2, 3, 4]"
    and n: "nextId (snd scenario3_all) = 5" and tp: "totalPooled (snd scenario3_all) = 3"
    using scenario3_all_inv by simp_all
  have s: "Pool_size (fst scenario3_all) = 3" using Pool_size_inv [OF i] by simp
  have lo: "10 * ((2::int) - 1) \<le> 2 * Pool_size (fst scenario3_all) + 5"
    and hi: "2 * Pool_size (fst scenario3_all) + 5 < 10 * (2::int)"
    by (simp_all add: s)
  let ?A = "Pool_acquire (fst scenario3_all) (snd scenario3_all)"
  let ?E = "Pool_expand (fst scenario3_all) (snd scenario3_all) 2"
  have u: "nextId (snd scenario3_all) # [Suc (nextId (snd scenario3_all)) ..<
      nextId (snd scenario3_all) + nat 2] = [5, 6]"
    "[Suc (nextId (snd scenario3_all)) ..< nextId (snd scenario3_all) + nat 2] = [6]"
    by (simp_all add: n upt_rec)
  note T = Pool_acquire_expands_once [OF i lo hi, unfolded u, unfolded n tp s]
  have a: "Math_round_fifth 3 + 1 = 2" "fst ?E = Returned ()"
    "first (freeList (fst (snd ?E))) = Some 5" "is_dll (freeList (fst (snd ?E))) [5, 6]"
    "fst ?A = Returned 5" "is_dll (freeList (fst (snd ?A))) [6]"
    "is_dll (usedList (fst (snd ?A))) ([2, 3, 4] @ [5])"
    "destroyed (snd (snd ?A)) 5 = False" "totalPooled (snd (snd ?A)) = 3 + 2"
    "nextId (snd (snd ?A)) = 5 + nat 2"
    using T by blast+
  have j: "pool_inv (fst scenario_A) (snd scenario_A) [] [2]"
    and n1: "nextId (snd scenario_A) = 3" and tp1: "totalPooled (snd scenario_A) = 1"
    using scenario_A_inv by simp_all
  have s1: "Pool_size (fst scenario_A) = 1" using Pool_size_inv [OF j] by simp
  have lo1: "10 * ((1::int) - 1) \<le> 2 * Pool_size (fst scenario_A) + 5"
    and hi1: "2 * Pool_size (fst scenario_A) + 5 < 10 * (1::int)"
    by (simp_all add: s1)
  note S = Pool_acquire_expands_once [OF j lo1 hi1, unfolded n1 tp1]
  have b: "fst (Pool_acquire (fst scenario_A) (snd scenario_A)) = Returned 3"
    "totalPooled (snd (snd (Pool_acquire (fst scenario_A) (snd scenario_A)))) = 1 + 1"
    using S by blast+
  show ?thesis
    using s a b unfolding scenario_B_def by simp
qed

text \<open>
  C2, as the code has it. A \<open>release(x)\<close> that returned has put \<open>x\<close> on the free list,
  so a second \<open>release(x)\<close> right after it is detected: it throws the duplicate-add error
  of the free list and leaves the pool and the state outside it as they were.
\<close>

theorem Pool_double_release_detected:
  assumes "fst (Pool_release p w x) = Returned ()"
  shows "Pool_release (fst (snd (Pool_release p w x))) (snd (snd (Pool_release p w x))) x =
           (Thrown (DuplicateAdd x (uniqueId (freeList p))),
            fst (snd (Pool_release p w x)), snd (snd (Pool_release p w x)))"
proof -
  obtain r fl where A: "LinkedList_add (freeList p) x = (r, fl)"
    by (cases "LinkedList_add (freeList p) x")
  have r: "r = Returned ()"
    using assms A by (cases r) (simp_all add: Pool_release_def)
  have h: "LinkedList_has fl x" "uniqueId fl = uniqueId (freeList p)"
    using LinkedList_add_returned [of "freeList p" x] A r by simp_all
  obtain b ul where R: "LinkedList_remove (usedList p) x = (b, ul)"
    by (cases "LinkedList_remove (usedList p) x")
  have rel: "Pool_release p w x =
      (Returned (), p\<lparr>freeList := fl, usedList := ul\<rparr>, w\<lparr>destroyed := (destroyed w)(x := True)\<rparr>)"
    using A R r by (simp add: Pool_release_def)
  show ?thesis
    unfolding rel fst_conv snd_conv using h
    by (simp add: Pool_release_def LinkedList_add_duplicate)
qed

theorem Pool_double_release_detected_witness:
  "fst (Pool_release (fst scenario_A) (snd scenario_A) 2) = Returned () \<and>
   Pool_release (fst scenario_A_released) (snd scenario_A_released) 2 =
     (Thrown (DuplicateAdd 2 0), fst scenario_A_released, snd scenario_A_released)"
proof -
  have f: "is_dll (freeList (fst scenario_A)) []" "is_dll (usedList (fst scenario_A)) [2]"
    and u: "uniqueId (freeList (fst scenario_A)) = 0"
    using scenario_A_inv by (simp_all add: pool_inv_def)
  have r: "fst (Pool_release (fst scenario_A) (snd scenario_A) 2) = Returned ()"
    using Pool_release_dll [OF f, of 2 "snd scenario_A"] by simp
  show ?thesis
    using Pool_double_release_detected [OF r] r u
    unfolding scenario_A_released_def by simp
qed

theorem Pool_double_release_counterexample:
  "fst (Pool_release (fst scenario_A) (snd scenario_A) 2) = Returned () \<and>
   fst (Pool_release (fst scenario_A_released) (snd scenario_A_released) 2) =
     Thrown (DuplicateAdd 2 0) \<and>
   snd (Pool_release (fst scenario_A_released) (snd scenario_A_released) 2) =
     scenario_A_released"
proof -
  have f: "is_dll (freeList (fst scenario_A)) []" "is_dll (usedList (fst scenario_A)) [2]"
    and u: "uniqueId (freeList (fst scenario_A)) = 0"
    using scenario_A_inv by (simp_all add: pool_inv_def)
  have r: "fst (Pool_release (fst scenario_A) (snd scenario_A) 2) = Returned ()"
    "is_dll (freeList (fst scenario_A_released)) ([] @ [2])"
    "uniqueId (freeList (fst scenario_A_released)) = 0"
    using Pool_release_dll [OF f, of 2 "snd scenario_A"] u
    unfolding scenario_A_released_def by simp_all
  have h: "LinkedList_has (freeList (fst scenario_A_released)) 2"
    using r(2) by (simp add: is_dll_def)
  have "Pool_release (fst scenario_A_released) (snd scenario_A_released) 2 =
     (Thrown (DuplicateAdd 2 0), fst scenario_A_released, snd scenario_A_released)"
    using h r(3) by (simp add: Pool_release_def LinkedList_add_duplicate)
  then show ?thesis using r(1) by simp
qed

text \<open>
  C3, as the code has it. On a well-formed pool, \<open>acquire()\<close> returns an object \<open>x\<close> and
  \<open>release(x)\<close> right after it returns; the used list is then the one before the
  \<open>acquire\<close>. If the free list was not empty, the count of the free list and \<open>size()\<close>
  are what they were. If it was empty, the \<open>acquire\<close> expanded the pool by
  \<open>k = round(size()/5) + 1\<close>, and the count of the free list and \<open>size()\<close> are \<open>k\<close> more
  than before the \<open>acquire\<close>.
\<close>

theorem Pool_acquire_release_roundtrip:
  assumes inv: "pool_inv p w fs us"
    and k: "k = Math_round_fifth (Pool_size p) + 1"
    and x: "x = (case fs of [] \<Rightarrow> nextId w | y # ys \<Rightarrow> y)"
    and pa: "pa = snd (Pool_acquire p w)"
    and pr: "pr = snd (Pool_release (fst pa) (snd pa) x)"
  shows "fst (Pool_acquire p w) = Returned x \<and>
         fst (Pool_release (fst pa) (snd pa) x) = Returned () \<and>
         is_dll (usedList (fst pr)) us \<and>
         count (usedList (fst pr)) = count (usedList p) \<and>
         (fs \<noteq> [] \<longrightarrow>
            count (freeList (fst pr)) = count (freeList p) \<and> Pool_size (fst pr) = Pool_size p) \<and>
         (fs = [] \<longrightarrow>
            count (freeList (fst pr)) = k \<and> Pool_size (fst pr) = Pool_size p + k)"
proof -
  define fs' where "fs' = (case fs of [] \<Rightarrow> [Suc (nextId w) ..< nextId w + nat k] | y # ys \<Rightarrow> ys)"
  have a: "fst (Pool_acquire p w) = Returned x" "pool_inv (fst pa) (snd pa) fs' (us @ [x])"
    "x \<notin> set fs'"
    using Pool_acquire_inv [OF inv k x fs'_def] unfolding pa by simp_all
  have f1: "is_dll (freeList (fst pa)) fs'" and u1: "is_dll (usedList (fst pa)) (us @ [x])"
    using a(2) by (simp_all add: pool_inv_def)
  have xu: "x \<notin> set us" using u1 by (simp add: is_dll_def)
  have r: "fst (Pool_release (fst pa) (snd pa) x) = Returned ()"
    "is_dll (freeList (fst pr)) (fs' @ [x])" "is_dll (usedList (fst pr)) (remove1 x (us @ [x]))"
    using Pool_release_dll [OF f1 u1 a(3), of "snd pa"] unfolding pr by simp_all
  have u2: "is_dll (usedList (fst pr)) us" using r(3) xu by (simp add: remove1_append)
  have k1: "1 \<le> k"
    using Pool_size_inv [OF inv] Math_round_fifth_nonneg [of "Pool_size p"] k by simp
  have len: "int (length (fs' @ [x])) = (if fs = [] then k else int (length fs))"
    using k1 by (cases fs) (simp_all add: fs'_def)
  have cf: "count (freeList (fst pr)) = (if fs = [] then k else int (length fs))"
    using r(2) len by (simp add: is_dll_def)
  have cu: "count (usedList (fst pr)) = int (length us)" using u2 by (simp add: is_dll_def)
  have c0: "count (freeList p) = int (length fs)" "count (usedList p) = int (length us)"
    using inv by (simp_all add: pool_inv_def is_dll_def)
  show ?thesis
    using a(1) r(1) u2 cf cu c0 by (simp add: Pool_size_def)
qed

theorem Pool_acquire_release_roundtrip_witness:
  "fst (Pool_acquire (fst scenario_fresh) (snd scenario_fresh)) = Returned 2 \<and>
   fst (Pool_release (fst scenario_A) (snd scenario_A) 2) = Returned () \<and>
   count (freeList (fst scenario_A_released)) = count (freeList (fst scenario_fresh)) \<and>
   count (usedList (fst scenario_A_released)) = count (usedList (fst scenario_fresh)) \<and>
   Pool_size (fst scenario_A_released) = Pool_size (fst scenario_fresh)"
proof -
  have i: "pool_inv (fst scenario_fresh) (snd scenario_fresh) [2] []"
    using scenario_fresh_inv by simp
  have x: "(2::nat) = (case [2::nat] of [] \<Rightarrow> nextId (snd scenario_fresh) | y # ys \<Rightarrow> y)"
    by simp
  show ?thesis
    using Pool_acquire_release_roundtrip [OF i refl x scenario_A_def scenario_A_released_def]
    by simp
qed

theorem Pool_acquire_release_counterexample:
  "Pool_size (fst scenario_A) = 1 \<and> count (freeList (fst scenario_A)) = 0 \<and>
   fst (Pool_acquire (fst scenario_A) (snd scenario_A)) = Returned 3 \<and>
   fst (Pool_release (fst scenario_B) (snd scenario_B) 3) = Returned () \<and>
   Pool_size (fst scenario_B_released) = 2 \<and> count (freeList (fst scenario_B_released)) = 1"
proof -
  have i: "pool_inv (fst scenario_A) (snd scenario_A) [] [2]"
    using scenario_A_inv by simp
  have s: "Pool_size (fst scenario_A) = 1" "count (freeList (fst scenario_A)) = 0"
    using i by (simp_all add: Pool_size_inv [OF i] pool_inv_def is_dll_def)
  have b: "is_dll (freeList (fst scenario_B)) []" "is_dll (usedList (fst scenario_B)) [2, 3]"
    using scenario_B_inv by (simp_all add: pool_inv_def)
  have r: "fst (Pool_release (fst scenario_B) (snd scenario_B) 3) = Returned ()"
    "is_dll (freeList (fst scenario_B_released)) ([] @ [3])"
    "is_dll (usedList (fst scenario_B_released)) (remove1 3 [2, 3])"
    using Pool_release_dll [OF b, of 3 "snd scenario_B"]
    unfolding scenario_B_released_def by simp_all
  have "Pool_size (fst scenario_B_released) = 2" "count (freeList (fst scenario_B_released)) = 1"
    using r(2,3) by (simp_all add: Pool_size_def is_dll_def)
  then show ?thesis using s r(1) scenario_B_inv by simp
qed

text \<open>
  C4, where the code departs from it. On the list holding 1, 2, 3, \<open>moveUp(2)\<close> returns
  and the forward links read 2, 1, 3; but the node of 3 keeps \<open>prevLinked\<close> = the node
  of 2, so the backward links from \<open>last\<close> read 3, 2 and never reach 1: the result is
  not the well-formed list 2, 1, 3. \<open>moveDown(1)\<close> is the same call and leaves the same
  list. At the boundary both are no-ops: \<open>moveUp(1)\<close> and \<open>moveDown(3)\<close> change nothing.
\<close>

theorem LinkedList_moveUp_stale_prevLinked:
  "is_dll list123 [1, 2, 3] \<and>
   fst (LinkedList_moveUp list123 2) = Returned () \<and>
   forward (objToNodeMap (snd (LinkedList_moveUp list123 2))) 10
     (first (snd (LinkedList_moveUp list123 2))) = [2, 1, 3] \<and>
   backward (objToNodeMap (snd (LinkedList_moveUp list123 2))) 10
     (last_l (snd (LinkedList_moveUp list123 2))) = [3, 2] \<and>
   map_option prevLinked (objToNodeMap (snd (LinkedList_moveUp list123 2)) 3) = Some (Some 2) \<and>
   \<not> is_dll (snd (LinkedList_moveUp list123 2)) [2, 1, 3] \<and>
   LinkedList_moveDown list123 1 = LinkedList_moveUp list123 2 \<and>
   LinkedList_moveUp list123 1 = (Returned (), list123) \<and>
   LinkedList_moveDown list123 3 = (Returned (), list123)"
proof -
  let ?l = "snd (LinkedList_moveUp list123 2)"
  note n = moveUp_list123
  have f: "forward (objToNodeMap ?l) 10 (first ?l) = [2, 1, 3]"
    using n by (simp add: eval_nat_numeral)
  have b: "backward (objToNodeMap ?l) 10 (last_l ?l) = [3, 2]"
    using n by (simp add: eval_nat_numeral)
  have p: "map_option prevLinked (objToNodeMap ?l 3) = Some (Some 2)"
    using n by simp
  have d: "\<not> is_dll ?l [2, 1, 3]"
    using n by (simp add: is_dll_def)
  show ?thesis
    using is_dll_list123 n f b p d moveDown_list123 moveUp_list123_first moveDown_list123_last
    by simp
qed



text \<open>
  C6. For every keyed node list \<open>l\<close> and object \<open>x\<close>: when \<open>x\<close> is not a member (no
  cached node, or a node marked free) \<open>remove\<close> returns false and changes nothing; when
  it is a member \<open>remove\<close> returns true, \<open>count\<close> is one less and \<open>x\<close> is no longer a
  member; on a well-formed list holding \<open>xs\<close> the result is the well-formed list
  holding \<open>xs\<close> without \<open>x\<close> (neighbours relinked, \<open>first\<close> and \<open>last\<close> at the new
  ends); and after an \<open>add\<close> of \<open>x\<close> that returned, \<open>remove\<close> of \<open>x\<close> returns true,
  \<open>count\<close> is what it was before the \<open>add\<close>, and \<open>has\<close> of \<open>x\<close> is false.
\<close>

theorem LinkedList_remove_contract:
  "(\<not> LinkedList_has l x \<longrightarrow> LinkedList_remove l x = (False, l)) \<and>
   (LinkedList_has l x \<longrightarrow>
      fst (LinkedList_remove l x) = True \<and>
      count (snd (LinkedList_remove l x)) = count l - 1 \<and>
      \<not> LinkedList_has (snd (LinkedList_remove l x)) x) \<and>
   (is_dll l xs \<and> x \<in> set xs \<longrightarrow>
      fst (LinkedList_remove l x) = True \<and>
      is_dll (snd (LinkedList_remove l x)) (remove1 x xs)) \<and>
   (fst (LinkedList_add l x) = Returned () \<longrightarrow>
      fst (LinkedList_remove (snd (LinkedList_add l x)) x) = True \<and>
      count (snd (LinkedList_remove (snd (LinkedList_add l x)) x)) = count l \<and>
      \<not> LinkedList_has (snd (LinkedList_remove (snd (LinkedList_add l x)) x)) x)"
proof (intro conjI impI)
  assume "\<not> LinkedList_has l x"
  then show "LinkedList_remove l x = (False, l)" by (rule LinkedList_remove_absent)
next
  assume h: "LinkedList_has l x"
  show "fst (LinkedList_remove l x) = True"
    using LinkedList_remove_present [OF h] by simp
  show "count (snd (LinkedList_remove l x)) = count l - 1"
    using LinkedList_remove_present [OF h] by simp
  show "\<not> LinkedList_has (snd (LinkedList_remove l x)) x"
    using LinkedList_remove_present [OF h] by simp
next
  assume a: "is_dll l xs \<and> x \<in> set xs"
  show "fst (LinkedList_remove l x) = True"
    using LinkedList_remove_dll [of l xs x] a by simp
  show "is_dll (snd (LinkedList_remove l x)) (remove1 x xs)"
    using LinkedList_remove_dll [of l xs x] a by simp
next
  assume r: "fst (LinkedList_add l x) = Returned ()"
  let ?l1 = "snd (LinkedList_add l x)"
  have h: "LinkedList_has ?l1 x" and c: "count ?l1 = count l + 1"
    using LinkedList_add_returned [OF r] by simp_all
  show "fst (LinkedList_remove ?l1 x) = True"
    using LinkedList_remove_present [OF h] by simp
  show "count (snd (LinkedList_remove ?l1 x)) = count l"
    using LinkedList_remove_present [OF h] c by simp
  show "\<not> LinkedList_has (snd (LinkedList_remove ?l1 x)) x"
    using LinkedList_remove_present [OF h] by simp
qed

theorem LinkedList_remove_contract_witness:
  "LinkedList_remove (LinkedList_init 7) 3 = (False, LinkedList_init 7) \<and>
   fst (LinkedList_add (LinkedList_init 7) 3) = Returned () \<and>
   fst (LinkedList_remove (snd (LinkedList_add (LinkedList_init 7) 3)) 3) = True \<and>
   count (snd (LinkedList_remove (snd (LinkedList_add (LinkedList_init 7) 3)) 3)) = 0 \<and>
   \<not> LinkedList_has (snd (LinkedList_remove (snd (LinkedList_add (LinkedList_init 7) 3)) 3)) 3 \<and>
   is_dll (snd (LinkedList_remove (snd (LinkedList_add (LinkedList_init 7) 3)) 3)) []"
proof -
  let ?l0 = "LinkedList_init 7"
  let ?l1 = "snd (LinkedList_add ?l0 3)"
  have nh: "\<not> LinkedList_has ?l0 3"
    by (simp add: LinkedList_init_def LinkedList_has_def LinkedList_getNode_def)
  have c0: "count ?l0 = 0" by (simp add: LinkedList_init_def)
  have a: "fst (LinkedList_add ?l0 3) = Returned ()" "is_dll ?l1 ([] @ [3])"
    using LinkedList_add_dll [of ?l0 "[]" 3] is_dll_init [of 7] by simp_all
  have "is_dll ?l1 [3] \<and> 3 \<in> set [3::nat]" using a by simp
  then have d: "is_dll (snd (LinkedList_remove ?l1 3)) (remove1 3 [3])"
    using LinkedList_remove_contract [of ?l1 3 "[3]"] by blast
  show ?thesis
    using LinkedList_remove_contract [of ?l0 3 "[]"] nh a(1) c0 d by simp
qed

text \<open>
  C7. From a state whose registered pools are well formed and whose initial pool size is
  not negative, after any sequence of \<open>acquire\<close>, \<open>release\<close>, \<open>expand\<close> and direct
  constructions: every pool registered at the start is still the pool registered for its
  type; the registered types are those registered at the start and those passed to
  \<open>acquire\<close>; \<open>totalPooled\<close> is not smaller than at the start. \<open>expand(n)\<close> adds exactly
  \<open>n\<close> to \<open>totalPooled\<close>. \<open>acquire\<close> of a registered type constructs nothing and calls
  \<open>acquire()\<close> on the registered pool; \<open>acquire\<close> of a type not registered constructs
  one pool with \<open>INITIAL_POOL_SIZE\<close> objects, all on its free list, registers it and calls
  its \<open>acquire()\<close>.
\<close>

theorem registry_one_pool_per_type:
  assumes wf: "wf_world w"
    and p0: "p0 = fst (snd (Pool_init t (INITIAL_POOL_SIZE w) w))"
    and w0: "w0 = snd (snd (Pool_init t (INITIAL_POOL_SIZE w) w))"
  shows "wf_world (run w ops) \<and> registry_extends w (run w ops) \<and>
         dom (pools (run w ops)) = dom (pools w) \<union> {t'. Acquire t' \<in> set ops} \<and>
         totalPooled w \<le> totalPooled (run w ops) \<and>
         totalPooled (snd (snd (Pool_expand p w n))) = totalPooled w + n \<and>
         (\<forall>q. pools w t = Some q \<longrightarrow>
            Pool_static_acquire w t =
              (case Pool_acquire q w of (r, p', w2) \<Rightarrow> (r, w2\<lparr>pools := (pools w2)(t \<mapsto> p')\<rparr>))) \<and>
         (pools w t = None \<longrightarrow>
            Pool_static_acquire w t =
              (case Pool_acquire p0 (w0\<lparr>pools := (pools w)(t \<mapsto> p0)\<rparr>) of
                 (r, p', w2) \<Rightarrow> (r, w2\<lparr>pools := (pools w2)(t \<mapsto> p')\<rparr>)) \<and>
            pool_inv p0 w0 [nextId w + 2 ..< nextId w + 2 + nat (INITIAL_POOL_SIZE w)] [] \<and>
            Pool_size p0 = INITIAL_POOL_SIZE w \<and> classType p0 = t)"
proof -
  have n0: "0 \<le> INITIAL_POOL_SIZE w" using wf by (simp add: wf_world_def)
  have a: "wf_world (run w ops)" "registry_extends w (run w ops)"
    "totalPooled w \<le> totalPooled (run w ops)"
    using run_any [OF wf, of ops] by simp_all
  have b: "dom (pools (run w ops)) = dom (pools w) \<union> {t'. Acquire t' \<in> set ops}"
    by (rule run_dom)
  have c: "totalPooled (snd (snd (Pool_expand p w n))) = totalPooled w + n"
    by (rule Pool_expand_totalPooled)
  have d: "\<forall>q. pools w t = Some q \<longrightarrow>
            Pool_static_acquire w t =
              (case Pool_acquire q w of (r, p', w2) \<Rightarrow> (r, w2\<lparr>pools := (pools w2)(t \<mapsto> p')\<rparr>))"
    by (simp add: Pool_static_acquire_registered)
  have e: "pool_inv p0 w0 [nextId w + 2 ..< nextId w + 2 + nat (INITIAL_POOL_SIZE w)] []"
    "classType p0 = t"
    using Pool_init_inv [of t "INITIAL_POOL_SIZE w" w] unfolding p0 w0 by blast+
  have f: "Pool_size p0 = INITIAL_POOL_SIZE w"
    using Pool_init_any [of t "INITIAL_POOL_SIZE w" w] n0 unfolding p0 by simp
  have g: "pools w t = None \<longrightarrow>
            Pool_static_acquire w t =
              (case Pool_acquire p0 (w0\<lparr>pools := (pools w)(t \<mapsto> p0)\<rparr>) of
                 (r, p', w2) \<Rightarrow> (r, w2\<lparr>pools := (pools w2)(t \<mapsto> p')\<rparr>)) \<and>
            pool_inv p0 w0 [nextId w + 2 ..< nextId w + 2 + nat (INITIAL_POOL_SIZE w)] [] \<and>
            Pool_size p0 = INITIAL_POOL_SIZE w \<and> classType p0 = t"
  proof (intro impI conjI)
    assume "pools w t = None"
    then show "Pool_static_acquire w t =
              (case Pool_acquire p0 (w0\<lparr>pools := (pools w)(t \<mapsto> p0)\<rparr>) of
                 (r, p', w2) \<Rightarrow> (r, w2\<lparr>pools := (pools w2)(t \<mapsto> p')\<rparr>))"
      unfolding p0 w0 by (rule Pool_static_acquire_unseen)
  qed (rule e f)+
  show ?thesis by (intro conjI a b c d g)
qed

theorem registry_one_pool_per_type_witness:
  "wf_world (run world0 [Acquire ''Point'', Acquire ''Point'', Release 2, Expand ''Point'' 3]) \<and>
   dom (pools (run world0 [Acquire ''Point'', Acquire ''Point'', Release 2, Expand ''Point'' 3])) =
     {''Point''} \<and>
   totalPooled world0 \<le>
     totalPooled (run world0 [Acquire ''Point'', Acquire ''Point'', Release 2, Expand ''Point'' 3]) \<and>
   Pool_size (fst (snd (Pool_init ''Point'' 1 world0))) = 1"
proof -
  let ?ops = "[Acquire ''Point'', Acquire ''Point'', Release 2, Expand ''Point'' 3]"
  have i: "INITIAL_POOL_SIZE world0 = 1" "pools world0 = Map.empty"
    by (simp_all add: world0_def)
  have d: "{t'. Acquire t' \<in> set ?ops} = {''Point''}" by auto
  note T = registry_one_pool_per_type [OF wf_world0 refl refl,
      where ops = ?ops and t = "''Point''", unfolded i d]
  have 1: "wf_world (run world0 ?ops)" by (rule T [THEN conjunct1])
  have 2: "dom (pools (run world0 ?ops)) = dom Map.empty \<union> {''Point''}"
    using T [THEN conjunct2, THEN conjunct2, THEN conjunct1] by simp
  have 3: "totalPooled world0 \<le> totalPooled (run world0 ?ops)"
    by (rule T [THEN conjunct2, THEN conjunct2, THEN conjunct2, THEN conjunct1])
  have 4: "Pool_size (fst (snd (Pool_init ''Point'' 1 world0))) = 1"
    using T [THEN conjunct2, THEN conjunct2, THEN conjunct2, THEN conjunct2,
        THEN conjunct2, THEN conjunct2] by simp
  show ?thesis using 1 2 3 4 by simp
qed

text \<open>
  C8. The registry's \<open>release(x)\<close> throws the no-such-pool error exactly when no pool is
  registered for the type of \<open>x\<close>, and it then changes nothing; it throws no such error
  for any other type. When a pool is registered for the type, \<open>release(x)\<close> is that
  pool's \<open>release(x)\<close>. Starting from an empty registry, no pool is registered for the type
  of \<open>x\<close> exactly when that type was never passed to \<open>acquire\<close>.
\<close>

theorem Pool_static_release_unknown_pool:
  "((fst (Pool_static_release w x) = Thrown (NoSuchPool (Class_fullName w x))) =
      (pools w (Class_fullName w x) = None)) \<and>
   (\<forall>t. fst (Pool_static_release w x) = Thrown (NoSuchPool t) \<longrightarrow>
      t = Class_fullName w x \<and> Pool_static_release w x = (Thrown (NoSuchPool t), w)) \<and>
   (\<forall>p. pools w (Class_fullName w x) = Some p \<longrightarrow>
      Pool_static_release w x =
        (case Pool_release p w x of
           (r, p', w1) \<Rightarrow> (r, w1\<lparr>pools := (pools w1)(Class_fullName w x \<mapsto> p')\<rparr>))) \<and>
   (pools w' = Map.empty \<and> w = run w' ops \<longrightarrow>
      (pools w (Class_fullName w x) = None) = (Acquire (Class_fullName w x) \<notin> set ops))"
proof -
  let ?t = "Class_fullName w x"
  have some: "\<And>p e. pools w ?t = Some p \<Longrightarrow> fst (Pool_static_release w x) \<noteq> Thrown (NoSuchPool e)"
  proof
    fix p e
    assume s: "pools w ?t = Some p" and th: "fst (Pool_static_release w x) = Thrown (NoSuchPool e)"
    obtain r p' w1 where R: "Pool_release p w x = (r, p', w1)"
      by (cases "Pool_release p w x") auto
    have "r = Thrown (NoSuchPool e)" using s th R by (simp add: Pool_static_release_def)
    then show False using Pool_release_throws [of p w x "NoSuchPool e"] R by simp
  qed
  have none: "pools w ?t = None \<Longrightarrow> Pool_static_release w x = (Thrown (NoSuchPool ?t), w)"
    by (simp add: Pool_static_release_def)
  have a: "(fst (Pool_static_release w x) = Thrown (NoSuchPool ?t)) = (pools w ?t = None)"
  proof (cases "pools w ?t")
    case None
    then show ?thesis using none by simp
  next
    case (Some p)
    then show ?thesis using some [OF Some, of ?t] by simp
  qed
  have b: "\<forall>t. fst (Pool_static_release w x) = Thrown (NoSuchPool t) \<longrightarrow>
      t = ?t \<and> Pool_static_release w x = (Thrown (NoSuchPool t), w)"
  proof (intro allI impI)
    fix t
    assume th: "fst (Pool_static_release w x) = Thrown (NoSuchPool t)"
    show "t = ?t \<and> Pool_static_release w x = (Thrown (NoSuchPool t), w)"
    proof (cases "pools w ?t")
      case None
      have "Pool_static_release w x = (Thrown (NoSuchPool ?t), w)" by (rule none [OF None])
      then show ?thesis using th by simp
    next
      case (Some p)
      then show ?thesis using some [OF Some, of t] th by simp
    qed
  qed
  have c: "\<forall>p. pools w ?t = Some p \<longrightarrow>
      Pool_static_release w x =
        (case Pool_release p w x of (r, p', w1) \<Rightarrow> (r, w1\<lparr>pools := (pools w1)(?t \<mapsto> p')\<rparr>))"
    by (simp add: Pool_static_release_def)
  have d: "pools w' = Map.empty \<and> w = run w' ops \<longrightarrow>
      (pools w ?t = None) = (Acquire ?t \<notin> set ops)"
  proof
    assume h: "pools w' = Map.empty \<and> w = run w' ops"
    have "dom (pools w) = {t. Acquire t \<in> set ops}"
      using run_dom [of w' ops] h by simp
    then have "(?t \<in> dom (pools w)) = (Acquire ?t \<in> set ops)" by blast
    then show "(pools w ?t = None) = (Acquire ?t \<notin> set ops)"
      by (cases "pools w ?t") auto
  qed
  show ?thesis by (intro conjI a b c d)
qed

theorem Pool_static_release_unknown_pool_witness:
  "Pool_static_release (snd (new_object ''Point'' world0)) 0 =
     (Thrown (NoSuchPool ''Point''), snd (new_object ''Point'' world0)) \<and>
   fst (Pool_static_release (run world0 [Acquire ''Point'']) 2) \<noteq> Thrown (NoSuchPool ''Point'')"
proof -
  let ?w = "snd (new_object ''Point'' world0)"
  have c: "Class_fullName ?w 0 = ''Point''" "pools ?w (Class_fullName ?w 0) = None"
    using construct_Point by simp_all
  note W = Pool_static_release_unknown_pool [of ?w 0]
  have "fst (Pool_static_release ?w 0) = Thrown (NoSuchPool ''Point'')"
    using W [THEN conjunct1] c by simp
  then have a: "Pool_static_release ?w 0 = (Thrown (NoSuchPool ''Point''), ?w)"
    using W [THEN conjunct2, THEN conjunct1] by simp
  let ?v = "run world0 [Acquire ''Point'']"
  have v: "?v = snd (Pool_static_acquire world0 ''Point'')" by (simp add: run_def)
  have cv: "Class_fullName ?v 2 = ''Point''" unfolding v using static_acquire_Point by simp
  have e: "pools world0 = Map.empty \<and> ?v = run world0 [Acquire ''Point'']"
    by (simp add: world0_def)
  note V = Pool_static_release_unknown_pool [of ?v 2 world0 "[Acquire ''Point'']"]
  have "(pools ?v (Class_fullName ?v 2) = None) =
      (Acquire (Class_fullName ?v 2) \<notin> set [Acquire ''Point''])"
    using V [THEN conjunct2, THEN conjunct2, THEN conjunct2] e by (rule mp)
  then have "pools ?v (Class_fullName ?v 2) \<noteq> None" unfolding cv by simp
  then have "fst (Pool_static_release ?v 2) \<noteq> Thrown (NoSuchPool (Class_fullName ?v 2))"
    unfolding V [THEN conjunct1] .
  then show ?thesis using a unfolding cv by simp
qed

text \<open>
  C9. If \<open>x\<close> is on the free list of \<open>p\<close> (\<open>has\<close> is true of it there), \<open>release(x)\<close>
  throws the duplicate-add error of the free list, and the pool and the state outside it
  are what they were: both lists, both counts and the \<open>destroyed\<close> flag of \<open>x\<close>.
\<close>

theorem Pool_release_on_free_atomic:
  "LinkedList_has (freeList p) x \<Longrightarrow>
   Pool_release p w x = (Thrown (DuplicateAdd x (uniqueId (freeList p))), p, w)"
  by (simp add: Pool_release_def LinkedList_add_duplicate)

theorem Pool_release_on_free_atomic_witness:
  "LinkedList_has (freeList (fst scenario_fresh)) 2 \<and>
   Pool_release (fst scenario_fresh) (snd scenario_fresh) 2 =
     (Thrown (DuplicateAdd 2 0), fst scenario_fresh, snd scenario_fresh)"
proof -
  have h: "LinkedList_has (freeList (fst scenario_fresh)) 2"
    using scenario_fresh_inv by (simp add: pool_inv_def is_dll_def)
  have u: "uniqueId (freeList (fst scenario_fresh)) = 0" using scenario_fresh_inv by simp
  show ?thesis
    using Pool_release_on_free_atomic [OF h, of "snd scenario_fresh"] h u by simp
qed

text \<open>
  C10. If the free list of \<open>p\<close> is well formed and \<open>x\<close> is on neither list, \<open>release(x)\<close>
  returns: \<open>x\<close> is appended to the free list, the removal from the used list answers
  false and leaves the used list as it was, \<open>destroyed\<close> of \<open>x\<close> is true, and \<open>size()\<close>
  is one more.
\<close>

theorem Pool_release_adopts:
  assumes f: "is_dll (freeList p) fs"
    and nf: "\<not> LinkedList_has (freeList p) x" and nu: "\<not> LinkedList_has (usedList p) x"
  shows "fst (Pool_release p w x) = Returned () \<and>
         is_dll (freeList (fst (snd (Pool_release p w x)))) (fs @ [x]) \<and>
         LinkedList_remove (usedList p) x = (False, usedList p) \<and>
         usedList (fst (snd (Pool_release p w x))) = usedList p \<and>
         destroyed (snd (snd (Pool_release p w x))) x = True \<and>
         Pool_size (fst (snd (Pool_release p w x))) = Pool_size p + 1"
proof -
  have nin: "x \<notin> set fs" using f nf by (auto simp: is_dll_def)
  obtain r fl where A: "LinkedList_add (freeList p) x = (r, fl)"
    by (cases "LinkedList_add (freeList p) x")
  have a: "r = Returned ()" "is_dll fl (fs @ [x])"
    using LinkedList_add_dll [OF f nin] A by simp_all
  have R: "LinkedList_remove (usedList p) x = (False, usedList p)"
    by (rule LinkedList_remove_absent [OF nu])
  have rel: "Pool_release p w x =
      (Returned (), p\<lparr>freeList := fl, usedList := usedList p\<rparr>,
       w\<lparr>destroyed := (destroyed w)(x := True)\<rparr>)"
    using A R a(1) by (simp add: Pool_release_def)
  have "count fl = count (freeList p) + 1" using a(2) f by (simp add: is_dll_def)
  then show ?thesis using a R by (simp add: rel Pool_size_def)
qed

theorem Pool_release_adopts_witness:
  "fst (new_object ''Point'' (snd scenario_fresh)) = 3 \<and>
   fst (Pool_release (fst scenario_fresh) (snd (new_object ''Point'' (snd scenario_fresh))) 3) =
     Returned () \<and>
   is_dll (freeList (fst (snd (Pool_release (fst scenario_fresh)
     (snd (new_object ''Point'' (snd scenario_fresh))) 3)))) [2, 3] \<and>
   destroyed (snd (snd (Pool_release (fst scenario_fresh)
     (snd (new_object ''Point'' (snd scenario_fresh))) 3))) 3 = True \<and>
   Pool_size (fst (snd (Pool_release (fst scenario_fresh)
     (snd (new_object ''Point'' (snd scenario_fresh))) 3))) = 2"
proof -
  have f: "is_dll (freeList (fst scenario_fresh)) [2]"
    and u: "is_dll (usedList (fst scenario_fresh)) []"
    and n: "nextId (snd scenario_fresh) = 3"
    using scenario_fresh_inv by (simp_all add: pool_inv_def)
  have x: "fst (new_object ''Point'' (snd scenario_fresh)) = 3"
    using n by (simp add: new_object_def)
  have nf: "\<not> LinkedList_has (freeList (fst scenario_fresh)) 3"
    using f by (simp add: is_dll_def)
  have nu: "\<not> LinkedList_has (usedList (fst scenario_fresh)) 3"
    using u by (simp add: is_dll_def)
  have s: "Pool_size (fst scenario_fresh) = 1"
    using f u by (simp add: Pool_size_def is_dll_def)
  show ?thesis
    using Pool_release_adopts [OF f nf nu, of "snd (new_object ''Point'' (snd scenario_fresh))"]
      s x by simp
qed

end
